theory Spec2Isabelle
  imports Complex_Main "HOL-Library.Multiset"
begin

section \<open>Domino Blocks: the data model of app.js\<close>

text \<open>
  The puzzle is a 4x4 grid covered by eight dominoes. The JavaScript keeps its
  two-dimensional arrays (\<open>cells\<close> of the generator, \<open>board\<close> of the game, the
  scratch board of the target calculator) as arrays of rows indexed \<open>[r][c]\<close>. They
  are embedded as functions from a row and a column to the stored value, so that
  \<open>g r c\<close> reads \<open>g[r][c]\<close> and \<open>put g r c v\<close> is the assignment
  \<open>g[r][c] = v\<close>. Every loop of the source runs its indices below \<open>SIZE\<close>.
\<close>

type_synonym 'a grid = "nat \<Rightarrow> nat \<Rightarrow> 'a"

definition SIZE :: nat where
  "SIZE = 4"

definition put :: "'a grid \<Rightarrow> nat \<Rightarrow> nat \<Rightarrow> 'a \<Rightarrow> 'a grid" where
  "put g r c v = g(r := (g r)(c := v))"

datatype block = Block (block_r: nat) (block_c: nat)

definition BLOCKS :: "block list" where
  "BLOCKS = [Block 0 0, Block 0 2, Block 2 0, Block 2 2]"

text \<open>The objects of the source: \<open>{r,c,value}\<close>, \<open>{cells:[..]}\<close>, \<open>{id,a,b}\<close>,
  \<open>{id,cells}\<close>, \<open>{value,dominoId}\<close>, \<open>{action,dominoId,cells}\<close>, \<open>{r,c}\<close> and
  \<open>{dr,dc}\<close>.\<close>

datatype cell = Cell (cell_r: nat) (cell_c: nat) (cell_value: int)

datatype tile = Tile (tile_cells: "cell list")

datatype domino = Domino (dom_id: int) (dom_a: int) (dom_b: int)

datatype placement = Placement (pl_id: int) (pl_cells: "cell list")

datatype occupant = Occupant (occ_value: int) (occ_dominoId: int)

datatype action = Place

datatype entry = Entry (h_action: action) (h_dominoId: int) (h_cells: "cell list")

datatype click = Click (click_r: nat) (click_c: nat)

datatype dir = Dir (dr: nat) (dc: nat)

text \<open>The texts handed to \<open>setMessage\<close>, one constructor per text; the two that
  carry data keep it (the count of placed dominoes, the list of wrong blocks).\<close>

datatype notice =
    NoticeStart
  | NoticeSelected
  | NoticeSelectFirst
  | NoticeOccupied
  | NoticeSecondCell
  | NoticeNotAdjacent
  | NoticeNotFound
  | NoticePlaced nat
  | NoticeSolved
  | NoticeWrongBlocks "nat list"
  | NoticeNothingToUndo
  | NoticeUndone

text \<open>What the code can throw: the explicit \<open>Error('Failed to generate tiling')\<close>,
  and the \<open>TypeError\<close> of reading a property of \<open>undefined\<close>.\<close>

datatype js_error = GenerationFailed | TypeError

record puzzle =
  solutionTiles :: "tile list"
  pool :: "domino list"
  placed :: "placement list"
  selectedDominoId :: "int option"
  selectionClicks :: "click list"
  board :: "occupant option grid"
  history :: "entry list"
  message :: notice

section \<open>Randomness\<close>

text \<open>
  \<open>Math.random()\<close> is the only source of randomness. A run of the program sees a
  sequence of its results; the model takes that sequence as a parameter \<open>rnd\<close> and
  counts the draws made so far. A draw is a number \<open>u\<close> with \<open>0 \<le> u < 1\<close>
  (\<open>unit_source\<close>); it is kept as an exact rational.
\<close>

type_synonym rand = "nat \<Rightarrow> rat"

definition unit_source :: "rand \<Rightarrow> bool" where
  "unit_source rnd = (\<forall>n. 0 \<le> rnd n \<and> rnd n < 1)"

definition randInt :: "int \<Rightarrow> int \<Rightarrow> rat \<Rightarrow> int" where
  "randInt lo hi u = \<lfloor>u * of_int (hi - lo + 1)\<rfloor> + lo"

text \<open>\<open>shuffleArray\<close>: for \<open>i\<close> from \<open>a.length-1\<close> down to 1, swap \<open>a[i]\<close> with
  \<open>a[j]\<close>, \<open>j = floor(random * (i+1))\<close>. The result is the array and the number of
  draws made.\<close>

fun shuffle_from :: "rand \<Rightarrow> nat \<Rightarrow> 'a list \<Rightarrow> nat \<Rightarrow> 'a list \<times> nat" where
  "shuffle_from rnd 0 a k = (a, k)"
| "shuffle_from rnd (Suc i) a k =
     (let j = nat \<lfloor>rnd k * of_nat (Suc i + 1)\<rfloor>
      in shuffle_from rnd i ((a[Suc i := a ! j])[j := a ! Suc i]) (Suc k))"

definition shuffleArray :: "rand \<Rightarrow> 'a list \<Rightarrow> nat \<Rightarrow> 'a list \<times> nat" where
  "shuffleArray rnd a k = shuffle_from rnd (length a - 1) a k"

section \<open>The tiling generator\<close>

definition positions :: "(nat \<times> nat) list" where
  "positions = concat (map (\<lambda>r. map (\<lambda>c. (r, c)) [0..<SIZE]) [0..<SIZE])"

definition findFirstEmpty :: "bool grid \<Rightarrow> (nat \<times> nat) option" where
  "findFirstEmpty cells = find (\<lambda>(r, c). \<not> cells r c) positions"

text \<open>The variables the closure \<open>tryPlace\<close> mutates, and the count of draws.\<close>

record gen_state =
  cells :: "bool grid"
  tiles :: "tile list"
  draws :: nat

text \<open>
  \<open>tryPlace\<close> and the body of its \<open>for (const d of dirs)\<close> loop. The loop calls
  \<open>tryPlace\<close> on the state with the domino placed and, when that fails, goes on
  from the state the call left behind, with the tile popped and the two cells
  cleared.
\<close>

function tryPlace :: "rand \<Rightarrow> gen_state \<Rightarrow> bool \<times> gen_state"
  and tryDirs :: "rand \<Rightarrow> nat \<Rightarrow> nat \<Rightarrow> dir list \<Rightarrow> gen_state \<Rightarrow> bool \<times> gen_state"
where
  "tryPlace rnd st =
     (case findFirstEmpty (cells st) of
        None \<Rightarrow> (True, st)
      | Some (r, c) \<Rightarrow>
          (let sh = shuffleArray rnd [Dir 0 1, Dir 1 0] (draws st)
           in tryDirs rnd r c (fst sh) (st\<lparr>draws := snd sh\<rparr>)))"
| "tryDirs rnd r c [] st = (False, st)"
| "tryDirs rnd r c (d # ds) st =
     (let nr = r + dr d; nc = c + dc d
      in if nr < SIZE \<and> nc < SIZE \<and> \<not> cells st nr nc then
           (let v1 = randInt 1 6 (rnd (draws st));
                v2 = randInt 1 6 (rnd (Suc (draws st)));
                res = tryPlace rnd
                        (st\<lparr>cells := put (put (cells st) r c True) nr nc True,
                            tiles := tiles st @ [Tile [Cell r c v1, Cell nr nc v2]],
                            draws := Suc (Suc (draws st))\<rparr>)
            in if fst res then (True, snd res)
               else tryDirs rnd r c ds
                      ((snd res)\<lparr>tiles := butlast (tiles (snd res)),
                                 cells := put (put (cells (snd res)) r c False) nr nc False\<rparr>))
         else tryDirs rnd r c ds st)"
  by pat_completeness auto

text \<open>The measure of the recursion: the number of empty cells of the grid.\<close>

definition empties :: "bool grid \<Rightarrow> nat" where
  "empties g = card {(r, c). r < SIZE \<and> c < SIZE \<and> \<not> g r c}"

lemma put_apply: "put g r c v r' c' = (if r' = r \<and> c' = c then v else g r' c')"
  by (simp add: put_def)

lemma put_same: "g r c = v \<Longrightarrow> put g r c v = g"
  by (auto simp: put_def fun_eq_iff)

lemma set_positions: "set positions = {(r, c). r < SIZE \<and> c < SIZE}"
  by (auto simp: positions_def)

lemma findFirstEmpty_Some:
  "findFirstEmpty g = Some (r, c) \<Longrightarrow> r < SIZE \<and> c < SIZE \<and> \<not> g r c"
proof -
  assume a: "findFirstEmpty g = Some (r, c)"
  then obtain i where i: "i < length positions" "positions ! i = (r, c)" "\<not> g r c"
    unfolding findFirstEmpty_def find_Some_iff by auto
  then have "(r, c) \<in> set positions" by (metis nth_mem)
  with i show ?thesis by (simp add: set_positions)
qed

lemma findFirstEmpty_None:
  "findFirstEmpty g = None \<longleftrightarrow> (\<forall>r c. r < SIZE \<longrightarrow> c < SIZE \<longrightarrow> g r c)"
  unfolding findFirstEmpty_def find_None_iff set_positions by auto

lemma finite_grid: "finite {(r, c). r < SIZE \<and> c < SIZE \<and> P r c}"
proof -
  have "{(r, c). r < SIZE \<and> c < SIZE \<and> P r c} \<subseteq> {..<SIZE} \<times> {..<SIZE}" by auto
  then show ?thesis by (rule finite_subset) simp
qed

lemma empties_place:
  assumes "nr < SIZE" "nc < SIZE" "\<not> g nr nc"
  shows "empties (put (put g r c True) nr nc True) < empties (put g r c False)"
  unfolding empties_def
proof (rule psubset_card_mono)
  show "finite {(r', c'). r' < SIZE \<and> c' < SIZE \<and> \<not> put g r c False r' c'}"
    by (rule finite_grid)
  have "(nr, nc) \<in> {(r', c'). r' < SIZE \<and> c' < SIZE \<and> \<not> put g r c False r' c'}"
    using assms by (simp add: put_apply)
  moreover have "(nr, nc) \<notin> {(r', c'). r' < SIZE \<and> c' < SIZE \<and> \<not> put (put g r c True) nr nc True r' c'}"
    by (simp add: put_apply)
  moreover have "{(r', c'). r' < SIZE \<and> c' < SIZE \<and> \<not> put (put g r c True) nr nc True r' c'}
      \<subseteq> {(r', c'). r' < SIZE \<and> c' < SIZE \<and> \<not> put g r c False r' c'}"
    by (auto simp: put_apply split: if_splits)
  ultimately show "{(r', c'). r' < SIZE \<and> c' < SIZE \<and> \<not> put (put g r c True) nr nc True r' c'}
      \<subset> {(r', c'). r' < SIZE \<and> c' < SIZE \<and> \<not> put g r c False r' c'}"
    by blast
qed

lemma rollback_cells:
  "\<not> g nr nc \<Longrightarrow>
   put (put (put (put g r c True) nr nc True) r c False) nr nc False = put g r c False"
  by (auto simp: put_apply fun_eq_iff)

text \<open>Before termination is known: a failed call leaves the grid as it found it.\<close>

lemma fail_cells_partial:
  "tryPlace_tryDirs_dom (Inl (rnd, st)) \<Longrightarrow>
     \<not> fst (tryPlace rnd st) \<longrightarrow> cells (snd (tryPlace rnd st)) = cells st"
  "tryPlace_tryDirs_dom (Inr (rnd, r, c, ds, st)) \<Longrightarrow>
     \<not> fst (tryDirs rnd r c ds st) \<longrightarrow>
       cells (snd (tryDirs rnd r c ds st)) = cells st \<or>
       cells (snd (tryDirs rnd r c ds st)) = put (cells st) r c False"
proof (induction rule: tryPlace_tryDirs.pinduct)
  case (1 rnd st)
  show ?case
  proof (cases "findFirstEmpty (cells st)")
    case None
    with 1(1) show ?thesis by (simp add: tryPlace.psimps)
  next
    case (Some p)
    obtain r c where p: "p = (r, c)" by (cases p)
    let ?sh = "shuffleArray rnd [Dir 0 1, Dir 1 0] (draws st)"
    have e: "\<not> cells st r c" using findFirstEmpty_Some Some p by blast
    have eq: "tryPlace rnd st = tryDirs rnd r c (fst ?sh) (st\<lparr>draws := snd ?sh\<rparr>)"
      using 1(1) Some p by (simp add: tryPlace.psimps Let_def)
    from 1(2)[OF Some p[symmetric] refl] e show ?thesis
      unfolding eq by (auto simp: put_same)
  qed
next
  case (2 rnd r c st)
  then show ?case by (simp add: tryDirs.psimps)
next
  case (3 rnd r c d ds st)
  let ?nr = "r + dr d" and ?nc = "c + dc d"
  show ?case
  proof (cases "?nr < SIZE \<and> ?nc < SIZE \<and> \<not> cells st ?nr ?nc")
    case False
    have eq: "tryDirs rnd r c (d # ds) st = tryDirs rnd r c ds st"
      using 3(1) by (simp only: tryDirs.psimps Let_def False simp_thms if_False)
    from 3(4)[OF refl refl False] show ?thesis unfolding eq .
  next
    case True
    let ?v1 = "randInt 1 6 (rnd (draws st))" and ?v2 = "randInt 1 6 (rnd (Suc (draws st)))"
    let ?st1 = "st\<lparr>cells := put (put (cells st) r c True) ?nr ?nc True,
                    tiles := tiles st @ [Tile [Cell r c ?v1, Cell ?nr ?nc ?v2]],
                    draws := Suc (Suc (draws st))\<rparr>"
    let ?res = "tryPlace rnd ?st1"
    let ?st2 = "(snd ?res)\<lparr>tiles := butlast (tiles (snd ?res)),
                  cells := put (put (cells (snd ?res)) r c False) ?nr ?nc False\<rparr>"
    show ?thesis
    proof (cases "fst ?res")
      case t: True
      have "fst (tryDirs rnd r c (d # ds) st)"
        using 3(1) by (simp only: tryDirs.psimps Let_def True t simp_thms if_True fst_conv)
      then show ?thesis by simp
    next
      case f: False
      have eq: "tryDirs rnd r c (d # ds) st = tryDirs rnd r c ds ?st2"
        using 3(1) by (simp only: tryDirs.psimps Let_def True f simp_thms if_True if_False)
      have c1: "cells (snd ?res) = cells ?st1"
        using 3(2)[OF refl refl True refl refl] f by simp
      have c2: "cells ?st2 = put (cells st) r c False"
        using True by (simp add: c1 rollback_cells)
      have p2: "put (cells ?st2) r c False = put (cells st) r c False"
        unfolding c2 by (auto simp: put_apply fun_eq_iff)
      from 3(3)[OF refl refl True refl refl refl f] show ?thesis
        unfolding eq p2 unfolding c2 by auto
    qed
  qed
qed

termination tryPlace
proof (relation "measures
     [\<lambda>x. case x of Inl (rnd, st) \<Rightarrow> empties (cells st)
                   | Inr (rnd, r, c, ds, st) \<Rightarrow> empties (put (cells st) r c False),
      \<lambda>x. case x of Inl _ \<Rightarrow> 1 | Inr _ \<Rightarrow> 0,
      \<lambda>x. case x of Inl _ \<Rightarrow> 0 | Inr (rnd, r, c, ds, st) \<Rightarrow> length ds]", goal_cases)
  case 1
  show ?case by simp
next
  case (2 rnd st x2 x y xa)
  then have "\<not> cells st x y" using findFirstEmpty_Some by metis
  then show ?case by (simp add: put_same)
next
  case (3 rnd r c d ds st x xa xb xc)
  then show ?case by (simp add: empties_place)
next
  case (4 rnd r c d ds st x xa xb xc xd)
  have "cells (snd xd) = put (put (cells st) r c True) x xa True"
    using fail_cells_partial(1)[OF 4(8)] 4(1-7) by simp
  then have "put (put (put (cells (snd xd)) r c False) x xa False) r c False = put (cells st) r c False"
    using 4(3) by (auto simp: put_apply fun_eq_iff)
  then show ?case by simp
next
  case 5
  then show ?case by simp
qed

text \<open>The retry loop of \<open>generateRandomTilingWithValues\<close>: reset the grid and the
  tiles, count the attempt, try; give up with an error after more than 200 failed
  attempts.\<close>

definition resetCells :: "bool grid \<Rightarrow> bool grid" where
  "resetCells g = (\<lambda>r c. if r < SIZE \<and> c < SIZE then False else g r c)"

function attemptLoop :: "rand \<Rightarrow> nat \<Rightarrow> gen_state \<Rightarrow> js_error + gen_state" where
  "attemptLoop rnd attempts st =
     (let res = tryPlace rnd (st\<lparr>cells := resetCells (cells st), tiles := []\<rparr>)
      in if fst res then Inr (snd res)
         else if Suc attempts > 200 then Inl GenerationFailed
         else attemptLoop rnd (Suc attempts) (snd res))"
  by pat_completeness auto
termination
  by (relation "measure (\<lambda>(rnd, attempts, st). 201 - attempts)") auto

definition generateRandomTilingWithValues :: "rand \<Rightarrow> nat \<Rightarrow> js_error + tile list \<times> nat" where
  "generateRandomTilingWithValues rnd k =
     (case attemptLoop rnd 0 \<lparr>cells = (\<lambda>r c. False), tiles = [], draws = k\<rparr> of
        Inl e \<Rightarrow> Inl e
      | Inr st \<Rightarrow> Inr (tiles st, draws st))"

section \<open>The target calculator\<close>

definition createEmptyBoard :: "'a option grid" where
  "createEmptyBoard = (\<lambda>r c. None)"

text \<open>\<open>sum += b[r][c]\<close> adds a number; a cell still \<open>null\<close> counts as 0 in
  JavaScript's addition.\<close>

definition num :: "int option \<Rightarrow> int" where
  "num v = (case v of None \<Rightarrow> 0 | Some n \<Rightarrow> n)"

definition fillBoard :: "tile list \<Rightarrow> int option grid" where
  "fillBoard ts =
     foldl (\<lambda>b t. foldl (\<lambda>b cell. put b (cell_r cell) (cell_c cell) (Some (cell_value cell)))
                          b (tile_cells t))
           createEmptyBoard ts"

definition blockCells :: "block \<Rightarrow> (nat \<times> nat) list" where
  "blockCells bl =
     concat (map (\<lambda>r. map (\<lambda>c. (r, c)) [block_c bl..<block_c bl + 2])
                 [block_r bl..<block_r bl + 2])"

definition computeBlockTargetsFromTiles :: "tile list \<Rightarrow> int list" where
  "computeBlockTargetsFromTiles ts =
     (let b = fillBoard ts
      in map (\<lambda>bl. foldl (\<lambda>sum (r, c). sum + num (b r c)) 0 (blockCells bl)) BLOCKS)"

section \<open>The puzzle state and its event handlers\<close>

text \<open>\<open>initPuzzle\<close>: generate the solution, build the pool from it (domino \<open>i\<close>
  carries the two values of tile \<open>i\<close>), shuffle the pool, clear everything else.
  Rendering is left out: it reads the state and changes none of it.\<close>

definition initPuzzle :: "rand \<Rightarrow> js_error + puzzle" where
  "initPuzzle rnd =
     (case generateRandomTilingWithValues rnd 0 of
        Inl e \<Rightarrow> Inl e
      | Inr (tiling, k) \<Rightarrow>
          (let pool0 = map (\<lambda>(i, t). Domino (int i) (cell_value (tile_cells t ! 0))
                                                  (cell_value (tile_cells t ! 1)))
                           (enumerate 0 tiling)
           in Inr \<lparr>solutionTiles = tiling,
                   pool = fst (shuffleArray rnd pool0 k),
                   placed = [],
                   selectedDominoId = None,
                   selectionClicks = [],
                   board = createEmptyBoard,
                   history = [],
                   message = NoticeStart\<rparr>))"

definition restart :: "rand \<Rightarrow> puzzle \<Rightarrow> js_error + puzzle" where
  "restart rnd s = initPuzzle rnd"

text \<open>\<open>!selectedDominoId\<close>: JavaScript's negation is true of \<open>null\<close> and of the
  number 0.\<close>

definition js_falsy :: "int option \<Rightarrow> bool" where
  "js_falsy v = (v = None \<or> v = Some 0)"

definition areAdjacent :: "click \<Rightarrow> click \<Rightarrow> bool" where
  "areAdjacent a b =
     (\<bar>int (click_r a) - int (click_r b)\<bar> + \<bar>int (click_c a) - int (click_c b)\<bar> = 1)"

definition flat :: "'a grid \<Rightarrow> 'a list" where
  "flat g = concat (map (\<lambda>r. map (g r) [0..<SIZE]) [0..<SIZE])"

text \<open>\<open>checkCompletion\<close>. The loop over the four sums sets \<open>ok\<close> to false and
  pushes the index whenever a sum differs from its target. Past the first test no
  cell is \<open>null\<close>, so \<open>board[r][c].value\<close> reads an occupant.\<close>

definition checkCompletion :: "puzzle \<Rightarrow> puzzle" where
  "checkCompletion s =
     (if list_ex (\<lambda>cell. cell = None) (flat (board s)) then s
      else
        (let sums' = map (\<lambda>bl. foldl (\<lambda>sum (r, c). sum + occ_value (the (board s r c))) 0
                                     (blockCells bl)) BLOCKS;
             correctTargets = computeBlockTargetsFromTiles (solutionTiles s);
             res = foldl (\<lambda>(ok, wrongIdx) i.
                            if sums' ! i \<noteq> correctTargets ! i then (False, wrongIdx @ [i])
                            else (ok, wrongIdx))
                         (True, []) [0..<length sums']
         in if fst res then s\<lparr>message := NoticeSolved\<rparr>
            else s\<lparr>message := NoticeWrongBlocks (map (\<lambda>i. i + 1) (snd res))\<rparr>))"

definition onSelectDomino :: "int \<Rightarrow> puzzle \<Rightarrow> puzzle" where
  "onSelectDomino i s =
     (case find (\<lambda>p. pl_id p = i) (placed s) of
        Some p \<Rightarrow> s
      | None \<Rightarrow> s\<lparr>selectedDominoId := Some i, selectionClicks := [],
                  message := NoticeSelected\<rparr>)"

text \<open>\<open>onCellClick\<close>, with the row and column of the clicked cell as arguments.
  \<open>board[r]\<close> is \<open>undefined\<close> for a row outside the board, and reading \<open>[c]\<close>
  of it throws.\<close>

definition onCellClick :: "nat \<Rightarrow> nat \<Rightarrow> puzzle \<Rightarrow> js_error + puzzle" where
  "onCellClick r c s =
     (if js_falsy (selectedDominoId s) then Inr (s\<lparr>message := NoticeSelectFirst\<rparr>)
      else if \<not> r < SIZE then Inl TypeError
      else if board s r c \<noteq> None then Inr (s\<lparr>message := NoticeOccupied\<rparr>)
      else
        (let clicks = selectionClicks s @ [Click r c]
         in if length clicks = 2 then
              (let a = clicks ! 0; b = clicks ! 1
               in if \<not> areAdjacent a b then
                    Inr (s\<lparr>selectionClicks := [], message := NoticeNotAdjacent\<rparr>)
                  else
                    (case find (\<lambda>d. Some (dom_id d) = selectedDominoId s) (pool s) of
                       None \<Rightarrow> Inr (s\<lparr>message := NoticeNotFound, selectionClicks := []\<rparr>)
                     | Some dom' \<Rightarrow>
                         (let placements = [Cell (click_r a) (click_c a) (dom_a dom'),
                                            Cell (click_r b) (click_c b) (dom_b dom')];
                              placed' = placed s @ [Placement (dom_id dom') placements]
                          in Inr (checkCompletion
                               (s\<lparr>board := foldl (\<lambda>g p. put g (cell_r p) (cell_c p)
                                                 (Some (Occupant (cell_value p) (dom_id dom'))))
                                               (board s) placements,
                                  placed := placed',
                                  pool := filter (\<lambda>x. dom_id x \<noteq> dom_id dom') (pool s),
                                  history := history s @ [Entry Place (dom_id dom') placements],
                                  selectedDominoId := None,
                                  selectionClicks := [],
                                  message := NoticePlaced (length placed')\<rparr>)))))
            else Inr (s\<lparr>selectionClicks := clicks, message := NoticeSecondCell\<rparr>)))"

text \<open>\<open>undo\<close>. \<open>solutionTiles[last.dominoId]\<close> is \<open>undefined\<close> outside the array
  and \<open>sol.cells[0]\<close> is \<open>undefined\<close> in a tile without cells; reading a property
  of either throws.\<close>

definition undo :: "puzzle \<Rightarrow> js_error + puzzle" where
  "undo s =
     (if history s = [] then Inr (s\<lparr>message := NoticeNothingToUndo\<rparr>)
      else
        (let lst = last (history s)
         in case h_action lst of
              Place \<Rightarrow>
                if h_dominoId lst < 0 \<or> length (solutionTiles s) \<le> nat (h_dominoId lst)
                then Inl TypeError
                else
                  (let sol = solutionTiles s ! nat (h_dominoId lst)
                   in if length (tile_cells sol) < 2 then Inl TypeError
                      else Inr (s\<lparr>history := butlast (history s),
                                  board := foldl (\<lambda>g cell. put g (cell_r cell) (cell_c cell) None)
                                                 (board s) (h_cells lst),
                                  pool := pool s @ [Domino (h_dominoId lst)
                                                      (cell_value (tile_cells sol ! 0))
                                                      (cell_value (tile_cells sol ! 1))],
                                  placed := filter (\<lambda>p. pl_id p \<noteq> h_dominoId lst) (placed s),
                                  message := NoticeUndone\<rparr>))))"

text \<open>The states a player can reach: a fresh puzzle (also after restart), then any
  selection, any click on one of the sixteen rendered cells, any undo.\<close>

inductive reachable :: "puzzle \<Rightarrow> bool" where
  r_init: "unit_source rnd \<Longrightarrow> initPuzzle rnd = Inr s \<Longrightarrow> reachable s"
| r_select: "reachable s \<Longrightarrow> reachable (onSelectDomino i s)"
| r_click: "reachable s \<Longrightarrow> r < SIZE \<Longrightarrow> c < SIZE \<Longrightarrow> onCellClick r c s = Inr s' \<Longrightarrow> reachable s'"
| r_undo: "reachable s \<Longrightarrow> undo s = Inr s' \<Longrightarrow> reachable s'"
| r_restart: "reachable s \<Longrightarrow> unit_source rnd \<Longrightarrow> restart rnd s = Inr s' \<Longrightarrow> reachable s'"

section \<open>Generator: helper facts\<close>

text \<open>The pieces of the loop body of \<open>tryPlace\<close>, named for the proofs: the test of
  its \<open>if\<close>, the state with the domino placed, and the state after backtracking.
  \<open>tryDirs_Cons\<close> restates the loop body with them.\<close>

definition can_place :: "nat \<Rightarrow> nat \<Rightarrow> dir \<Rightarrow> gen_state \<Rightarrow> bool" where
  "can_place r c d st = (r + dr d < SIZE \<and> c + dc d < SIZE \<and> \<not> cells st (r + dr d) (c + dc d))"

definition place_st :: "rand \<Rightarrow> nat \<Rightarrow> nat \<Rightarrow> dir \<Rightarrow> gen_state \<Rightarrow> gen_state" where
  "place_st rnd r c d st =
     st\<lparr>cells := put (put (cells st) r c True) (r + dr d) (c + dc d) True,
        tiles := tiles st @ [Tile [Cell r c (randInt 1 6 (rnd (draws st))),
                                   Cell (r + dr d) (c + dc d) (randInt 1 6 (rnd (Suc (draws st))))]],
        draws := Suc (Suc (draws st))\<rparr>"

definition unplace_st :: "nat \<Rightarrow> nat \<Rightarrow> dir \<Rightarrow> gen_state \<Rightarrow> gen_state" where
  "unplace_st r c d st =
     st\<lparr>tiles := butlast (tiles st),
        cells := put (put (cells st) r c False) (r + dr d) (c + dc d) False\<rparr>"

lemma tryDirs_Nil: "tryDirs rnd r c [] st = (False, st)"
  by simp

lemma tryDirs_Cons:
  "tryDirs rnd r c (d # ds) st =
     (if can_place r c d st then
        (if fst (tryPlace rnd (place_st rnd r c d st))
         then (True, snd (tryPlace rnd (place_st rnd r c d st)))
         else tryDirs rnd r c ds (unplace_st r c d (snd (tryPlace rnd (place_st rnd r c d st)))))
      else tryDirs rnd r c ds st)"
  by (simp add: can_place_def place_st_def unplace_st_def Let_def)

lemma tryPlace_None:
  "findFirstEmpty (cells st) = None \<Longrightarrow> tryPlace rnd st = (True, st)"
  by simp

lemma tryPlace_Some:
  "findFirstEmpty (cells st) = Some (r, c) \<Longrightarrow>
   tryPlace rnd st =
     tryDirs rnd r c (fst (shuffleArray rnd [Dir 0 1, Dir 1 0] (draws st)))
       (st\<lparr>draws := snd (shuffleArray rnd [Dir 0 1, Dir 1 0] (draws st))\<rparr>)"
  by (simp add: Let_def)

lemma floor_draw_less:
  assumes "0 \<le> u" "u < 1" "0 < n"
  shows "nat \<lfloor>u * of_nat n\<rfloor> < n"
proof -
  have "u * of_nat n < of_nat n" using assms by simp
  then have "\<lfloor>u * of_nat n\<rfloor> < int n" by (simp add: floor_less_iff)
  then show ?thesis using assms by linarith
qed

lemma randInt_range:
  assumes "0 \<le> u" "u < 1"
  shows "1 \<le> randInt 1 6 u \<and> randInt 1 6 u \<le> 6"
proof -
  have "0 \<le> u * 6" "u * 6 < 6" using assms by simp_all
  then have "0 \<le> \<lfloor>u * 6\<rfloor>" "\<lfloor>u * 6\<rfloor> < 6" by (simp_all add: floor_less_iff)
  then show ?thesis by (simp add: randInt_def)
qed

lemma shuffle_from_mset:
  "unit_source rnd \<Longrightarrow> i < length a \<Longrightarrow> mset (fst (shuffle_from rnd i a k)) = mset a"
proof (induction i arbitrary: a k)
  case 0
  then show ?case by simp
next
  case (Suc i)
  let ?j = "nat \<lfloor>rnd k * of_nat (Suc i + 1)\<rfloor>"
  have "?j < Suc i + 1"
    using Suc.prems(1) by (intro floor_draw_less) (simp_all add: unit_source_def)
  then have j: "?j < length a" using Suc.prems(2) by simp
  have "mset ((a[Suc i := a ! ?j])[?j := a ! Suc i]) = mset a"
    using mset_swap[OF j Suc.prems(2)] by simp
  moreover have "i < length ((a[Suc i := a ! ?j])[?j := a ! Suc i])"
    using Suc.prems(2) by simp
  ultimately show ?case using Suc.IH[OF Suc.prems(1)] by (simp add: Let_def)
qed

lemma shuffleArray_mset:
  "unit_source rnd \<Longrightarrow> mset (fst (shuffleArray rnd a k)) = mset a"
proof (cases a)
  case Nil
  then show ?thesis by (simp add: shuffleArray_def)
next
  case (Cons x xs)
  assume "unit_source rnd"
  then show ?thesis unfolding shuffleArray_def
    by (rule shuffle_from_mset) (simp add: Cons)
qed

lemma shuffleArray_set:
  "unit_source rnd \<Longrightarrow> set (fst (shuffleArray rnd a k)) = set a"
  by (metis shuffleArray_mset set_mset_mset)

declare tryPlace.simps [simp del] tryDirs.simps [simp del]

text \<open>A failed search leaves cells and tiles as they were.\<close>

lemma unplace_place:
  "\<not> cells st r c \<Longrightarrow> can_place r c d st \<Longrightarrow> cells st' = cells (place_st rnd r c d st) \<Longrightarrow>
   tiles st' = tiles (place_st rnd r c d st) \<Longrightarrow>
   cells (unplace_st r c d st') = cells st \<and> tiles (unplace_st r c d st') = tiles st"
  by (auto simp: unplace_st_def place_st_def can_place_def put_apply fun_eq_iff)

lemma fail_restores:
  "\<not> fst (tryPlace rnd st) \<longrightarrow>
     cells (snd (tryPlace rnd st)) = cells st \<and> tiles (snd (tryPlace rnd st)) = tiles st"
  "\<not> cells st r c \<longrightarrow> \<not> fst (tryDirs rnd r c ds st) \<longrightarrow>
     cells (snd (tryDirs rnd r c ds st)) = cells st \<and>
     tiles (snd (tryDirs rnd r c ds st)) = tiles st"
proof (induction rnd st and rnd r c ds st rule: tryPlace_tryDirs.induct)
  case (1 rnd st)
  show ?case
  proof (cases "findFirstEmpty (cells st)")
    case None
    then show ?thesis by (simp add: tryPlace_None)
  next
    case (Some p)
    obtain r c where p: "p = (r, c)" by (cases p)
    have e: "\<not> cells st r c" using findFirstEmpty_Some Some p by blast
    from 1[OF Some p[symmetric] refl] e show ?thesis
      using Some p by (simp add: tryPlace_Some)
  qed
next
  case (2 rnd r c st)
  show ?case by (simp add: tryDirs_Nil)
next
  case (3 rnd r c d ds st)
  show ?case
  proof (cases "can_place r c d st")
    case False
    then have g: "\<not> (r + dr d < SIZE \<and> c + dc d < SIZE \<and> \<not> cells st (r + dr d) (c + dc d))"
      by (simp add: can_place_def)
    from 3(3)[OF refl refl g] False show ?thesis by (simp add: tryDirs_Cons)
  next
    case True
    then have g: "r + dr d < SIZE \<and> c + dc d < SIZE \<and> \<not> cells st (r + dr d) (c + dc d)"
      by (simp add: can_place_def)
    let ?res = "tryPlace rnd (place_st rnd r c d st)"
    show ?thesis
    proof (intro impI)
      assume e: "\<not> cells st r c" and f: "\<not> fst (tryDirs rnd r c (d # ds) st)"
      from f True have f1: "\<not> fst ?res"
        by (auto simp: tryDirs_Cons split: if_splits)
      have ih1: "cells (snd ?res) = cells (place_st rnd r c d st) \<and>
                 tiles (snd ?res) = tiles (place_st rnd r c d st)"
        using 3(1)[OF refl refl g refl refl] f1 by (simp add: place_st_def)
      have u: "cells (unplace_st r c d (snd ?res)) = cells st \<and>
               tiles (unplace_st r c d (snd ?res)) = tiles st"
        using unplace_place[OF e True] ih1 by blast
      have eq: "tryDirs rnd r c (d # ds) st = tryDirs rnd r c ds (unplace_st r c d (snd ?res))"
        using True f1 by (simp add: tryDirs_Cons)
      have ih2: "\<not> cells (unplace_st r c d (snd ?res)) r c \<longrightarrow>
            \<not> fst (tryDirs rnd r c ds (unplace_st r c d (snd ?res))) \<longrightarrow>
            cells (snd (tryDirs rnd r c ds (unplace_st r c d (snd ?res)))) = cells (unplace_st r c d (snd ?res)) \<and>
            tiles (snd (tryDirs rnd r c ds (unplace_st r c d (snd ?res)))) = tiles (unplace_st r c d (snd ?res))"
        using 3(2)[OF refl refl g refl refl refl] f1
        by (simp add: place_st_def unplace_st_def)
      from ih2 u e f show "cells (snd (tryDirs rnd r c (d # ds) st)) = cells st \<and>
          tiles (snd (tryDirs rnd r c (d # ds) st)) = tiles st"
        unfolding eq by simp
    qed
  qed
qed

section \<open>What a tiling is\<close>

text \<open>\<open>tile_ok\<close>: two cells, the second the right or the down neighbour of the first,
  both values between 1 and 6. \<open>valid_tiling\<close>: eight such tiles whose cells cover each
  position of the grid exactly once. \<open>gen_inv\<close> is the invariant of the search: the
  tiles laid so far cover exactly the cells marked in \<open>cells\<close>, each once.\<close>

definition covered :: "tile list \<Rightarrow> (nat \<times> nat) list" where
  "covered ts = concat (map (\<lambda>t. map (\<lambda>cl. (cell_r cl, cell_c cl)) (tile_cells t)) ts)"

definition pips :: "tile list \<Rightarrow> int list" where
  "pips ts = concat (map (\<lambda>t. map cell_value (tile_cells t)) ts)"

definition tile_ok :: "tile \<Rightarrow> bool" where
  "tile_ok t =
     (case tile_cells t of
        [a, b] \<Rightarrow>
          (cell_r b = cell_r a \<and> cell_c b = cell_c a + 1 \<or>
           cell_r b = cell_r a + 1 \<and> cell_c b = cell_c a) \<and>
          1 \<le> cell_value a \<and> cell_value a \<le> 6 \<and> 1 \<le> cell_value b \<and> cell_value b \<le> 6
      | _ \<Rightarrow> False)"

definition valid_tiling :: "tile list \<Rightarrow> bool" where
  "valid_tiling ts =
     (length ts = 8 \<and> list_all tile_ok ts \<and>
      list_all (\<lambda>p. count_list (covered ts) p = 1) positions)"

definition gen_inv :: "gen_state \<Rightarrow> bool" where
  "gen_inv st =
     (distinct (covered (tiles st)) \<and>
      set (covered (tiles st)) = {(r, c). r < SIZE \<and> c < SIZE \<and> cells st r c} \<and>
      (\<forall>t \<in> set (tiles st). tile_ok t))"

lemma gen_inv_cong:
  "cells st' = cells st \<Longrightarrow> tiles st' = tiles st \<Longrightarrow> gen_inv st' = gen_inv st"
  by (simp add: gen_inv_def)

lemma covered_append: "covered (ts @ us) = covered ts @ covered us"
  by (simp add: covered_def)

lemma gen_inv_place:
  assumes inv: "gen_inv st" and u: "unit_source rnd"
    and rc: "r < SIZE" "c < SIZE" "\<not> cells st r c"
    and d: "d = Dir 0 1 \<or> d = Dir 1 0" and cp: "can_place r c d st"
  shows "gen_inv (place_st rnd r c d st)"
proof -
  let ?nr = "r + dr d" and ?nc = "c + dc d"
  have ne: "(r, c) \<noteq> (?nr, ?nc)" using d by auto
  have n1: "(r, c) \<notin> set (covered (tiles st))" "(?nr, ?nc) \<notin> set (covered (tiles st))"
    using inv rc cp by (auto simp: gen_inv_def can_place_def)
  have v: "1 \<le> randInt 1 6 (rnd (draws st)) \<and> randInt 1 6 (rnd (draws st)) \<le> 6"
          "1 \<le> randInt 1 6 (rnd (Suc (draws st))) \<and> randInt 1 6 (rnd (Suc (draws st))) \<le> 6"
    using u by (simp_all add: unit_source_def randInt_range)
  have cov: "covered (tiles (place_st rnd r c d st)) = covered (tiles st) @ [(r, c), (?nr, ?nc)]"
    by (simp add: place_st_def covered_def)
  have "distinct (covered (tiles (place_st rnd r c d st)))"
    unfolding cov using inv n1 ne by (simp add: gen_inv_def)
  moreover have "set (covered (tiles (place_st rnd r c d st)))
      = {(r', c'). r' < SIZE \<and> c' < SIZE \<and> cells (place_st rnd r c d st) r' c'}"
    unfolding cov using inv rc cp
    by (auto simp: gen_inv_def place_st_def can_place_def put_apply split: if_splits)
  moreover have "\<forall>t \<in> set (tiles (place_st rnd r c d st)). tile_ok t"
    using inv d v by (auto simp: gen_inv_def place_st_def tile_ok_def)
  ultimately show ?thesis by (simp add: gen_inv_def)
qed

lemma success_inv:
  "unit_source rnd \<longrightarrow> gen_inv st \<longrightarrow> fst (tryPlace rnd st) \<longrightarrow>
     gen_inv (snd (tryPlace rnd st)) \<and> findFirstEmpty (cells (snd (tryPlace rnd st))) = None"
  "unit_source rnd \<longrightarrow> gen_inv st \<longrightarrow> r < SIZE \<and> c < SIZE \<and> \<not> cells st r c \<longrightarrow>
     (\<forall>d \<in> set ds. d = Dir 0 1 \<or> d = Dir 1 0) \<longrightarrow> fst (tryDirs rnd r c ds st) \<longrightarrow>
     gen_inv (snd (tryDirs rnd r c ds st)) \<and>
     findFirstEmpty (cells (snd (tryDirs rnd r c ds st))) = None"
proof (induction rnd st and rnd r c ds st rule: tryPlace_tryDirs.induct)
  case (1 rnd st)
  show ?case
  proof (cases "findFirstEmpty (cells st)")
    case None
    then show ?thesis by (simp add: tryPlace_None)
  next
    case (Some p)
    obtain r c where p: "p = (r, c)" by (cases p)
    let ?sh = "shuffleArray rnd [Dir 0 1, Dir 1 0] (draws st)"
    have e: "r < SIZE \<and> c < SIZE \<and> \<not> cells st r c" using findFirstEmpty_Some Some p by blast
    have eq: "tryPlace rnd st = tryDirs rnd r c (fst ?sh) (st\<lparr>draws := snd ?sh\<rparr>)"
      using Some p by (simp add: tryPlace_Some)
    have gi: "gen_inv (st\<lparr>draws := snd ?sh\<rparr>) = gen_inv st" by (simp add: gen_inv_def)
    show ?thesis
    proof (intro impI)
      assume u: "unit_source rnd" and inv: "gen_inv st" and ok: "fst (tryPlace rnd st)"
      have ds: "\<forall>d \<in> set (fst ?sh). d = Dir 0 1 \<or> d = Dir 1 0"
        using shuffleArray_set[OF u, of "[Dir 0 1, Dir 1 0]" "draws st"] by auto
      from 1[OF Some p[symmetric] refl] u inv gi e ds ok
      show "gen_inv (snd (tryPlace rnd st)) \<and> findFirstEmpty (cells (snd (tryPlace rnd st))) = None"
        unfolding eq by simp
    qed
  qed
next
  case (2 rnd r c st)
  show ?case by (simp add: tryDirs_Nil)
next
  case (3 rnd r c d ds st)
  show ?case
  proof (cases "can_place r c d st")
    case False
    then have g: "\<not> (r + dr d < SIZE \<and> c + dc d < SIZE \<and> \<not> cells st (r + dr d) (c + dc d))"
      by (simp add: can_place_def)
    from 3(3)[OF refl refl g] False show ?thesis by (simp add: tryDirs_Cons)
  next
    case True
    then have g: "r + dr d < SIZE \<and> c + dc d < SIZE \<and> \<not> cells st (r + dr d) (c + dc d)"
      by (simp add: can_place_def)
    let ?res = "tryPlace rnd (place_st rnd r c d st)"
    let ?st2 = "unplace_st r c d (snd ?res)"
    show ?thesis
    proof (intro impI)
      assume u: "unit_source rnd" and inv: "gen_inv st"
        and e: "r < SIZE \<and> c < SIZE \<and> \<not> cells st r c"
        and ds: "\<forall>d \<in> set (d # ds). d = Dir 0 1 \<or> d = Dir 1 0"
        and ok: "fst (tryDirs rnd r c (d # ds) st)"
      have inv1: "gen_inv (place_st rnd r c d st)"
        using gen_inv_place[OF inv u _ _ _ _ True] e ds by simp
      show "gen_inv (snd (tryDirs rnd r c (d # ds) st)) \<and>
            findFirstEmpty (cells (snd (tryDirs rnd r c (d # ds) st))) = None"
      proof (cases "fst ?res")
        case t: True
        have eq: "tryDirs rnd r c (d # ds) st = (True, snd ?res)"
          using True t by (simp add: tryDirs_Cons)
        from 3(1)[OF refl refl g refl refl] u inv1 t show ?thesis
          unfolding eq by (simp add: place_st_def)
      next
        case f: False
        have eq: "tryDirs rnd r c (d # ds) st = tryDirs rnd r c ds ?st2"
          using True f by (simp add: tryDirs_Cons)
        have r1: "cells (snd ?res) = cells (place_st rnd r c d st) \<and>
                  tiles (snd ?res) = tiles (place_st rnd r c d st)"
          using fail_restores(1)[of rnd "place_st rnd r c d st"] f by simp
        have u2: "cells ?st2 = cells st \<and> tiles ?st2 = tiles st"
          using unplace_place[OF _ True] e r1 by blast
        have inv2: "gen_inv ?st2" using gen_inv_cong u2 inv by blast
        have ih: "unit_source rnd \<longrightarrow> gen_inv ?st2 \<longrightarrow> r < SIZE \<and> c < SIZE \<and> \<not> cells ?st2 r c \<longrightarrow>
            (\<forall>d \<in> set ds. d = Dir 0 1 \<or> d = Dir 1 0) \<longrightarrow> fst (tryDirs rnd r c ds ?st2) \<longrightarrow>
            gen_inv (snd (tryDirs rnd r c ds ?st2)) \<and>
            findFirstEmpty (cells (snd (tryDirs rnd r c ds ?st2))) = None"
          using 3(2)[OF refl refl g refl refl refl] f
          by (simp add: place_st_def unplace_st_def)
        from ih u inv2 e u2 ds ok show ?thesis unfolding eq by simp
      qed
    qed
  qed
qed

lemma count_list_distinct: "distinct xs \<Longrightarrow> x \<in> set xs \<Longrightarrow> count_list xs x = 1"
  by (induction xs) (auto simp: count_list_0_iff)

lemma length_covered: "\<forall>t \<in> set ts. tile_ok t \<Longrightarrow> length (covered ts) = 2 * length ts"
proof (induction ts)
  case Nil
  then show ?case by (simp add: covered_def)
next
  case (Cons t ts)
  from Cons.prems have "tile_ok t" by simp
  then have "length (tile_cells t) = 2"
    by (auto simp: tile_ok_def split: list.splits)
  with Cons show ?case by (simp add: covered_def)
qed

lemma distinct_positions: "distinct positions"
  by (simp add: positions_def SIZE_def upt_rec)

lemma length_positions: "length positions = 16"
  by (simp add: positions_def SIZE_def upt_rec)

lemma full_valid:
  assumes inv: "gen_inv st" and full: "findFirstEmpty (cells st) = None"
  shows "valid_tiling (tiles st)"
proof -
  have all: "\<forall>r c. r < SIZE \<longrightarrow> c < SIZE \<longrightarrow> cells st r c"
    using full by (simp add: findFirstEmpty_None)
  have s: "set (covered (tiles st)) = set positions"
    using inv all by (auto simp: gen_inv_def set_positions)
  have d: "distinct (covered (tiles st))" using inv by (simp add: gen_inv_def)
  have ok: "\<forall>t \<in> set (tiles st). tile_ok t" using inv by (simp add: gen_inv_def)
  have "length (covered (tiles st)) = card (set (covered (tiles st)))"
    using d by (simp add: distinct_card)
  also have "\<dots> = length positions"
    unfolding s using distinct_positions by (simp add: distinct_card)
  finally have "2 * length (tiles st) = 16"
    using length_covered[OF ok] length_positions by simp
  then have "length (tiles st) = 8" by simp
  moreover have "list_all (\<lambda>p. count_list (covered (tiles st)) p = 1) positions"
    using d s by (simp add: list_all_iff count_list_distinct)
  ultimately show ?thesis using ok by (simp add: valid_tiling_def list_all_iff)
qed

lemma resetCells_empty: "resetCells (\<lambda>r c. False) = (\<lambda>r c. False)"
  by (simp add: resetCells_def fun_eq_iff)

lemma gen_inv_reset: "gen_inv (st\<lparr>cells := resetCells (cells st), tiles := []\<rparr>)"
  by (simp add: gen_inv_def covered_def resetCells_def)

declare attemptLoop.simps [simp del]

lemma attemptLoop_valid:
  "unit_source rnd \<Longrightarrow> attemptLoop rnd n st = Inr st' \<Longrightarrow> valid_tiling (tiles st')"
proof (induction rnd n st rule: attemptLoop.induct)
  case (1 rnd attempts st)
  let ?st0 = "st\<lparr>cells := resetCells (cells st), tiles := []\<rparr>"
  let ?res = "tryPlace rnd ?st0"
  show ?case
  proof (cases "fst ?res")
    case True
    then have "st' = snd ?res" using 1(3) by (subst (asm) attemptLoop.simps) (simp add: Let_def)
    moreover have "gen_inv (snd ?res) \<and> findFirstEmpty (cells (snd ?res)) = None"
      using success_inv(1)[of rnd ?st0] 1(2) gen_inv_reset True by blast
    ultimately show ?thesis using full_valid by blast
  next
    case False
    then have n: "\<not> Suc attempts > 200" and eq: "attemptLoop rnd (Suc attempts) (snd ?res) = Inr st'"
      using 1(3) by (subst (asm) attemptLoop.simps, simp add: Let_def split: if_splits)+
    from 1(1)[OF refl False n 1(2) eq] show ?thesis .
  qed
qed

section \<open>The search finds a tiling\<close>

text \<open>\<open>tileable g\<close>: the grid can be completed by laying, again and again, a domino
  from the first empty cell to its right or its down neighbour. This is what the
  search explores, in either order of the two directions.\<close>

inductive tileable :: "bool grid \<Rightarrow> bool" where
  t_full: "findFirstEmpty g = None \<Longrightarrow> tileable g"
| t_step: "findFirstEmpty g = Some (r, c) \<Longrightarrow> d = Dir 0 1 \<or> d = Dir 1 0 \<Longrightarrow>
           r + dr d < SIZE \<Longrightarrow> c + dc d < SIZE \<Longrightarrow> \<not> g (r + dr d) (c + dc d) \<Longrightarrow>
           tileable (put (put g r c True) (r + dr d) (c + dc d) True) \<Longrightarrow> tileable g"

lemma tileable_cases:
  assumes "tileable g" "findFirstEmpty g = Some (r, c)"
  shows "\<exists>d. (d = Dir 0 1 \<or> d = Dir 1 0) \<and> r + dr d < SIZE \<and> c + dc d < SIZE \<and>
              \<not> g (r + dr d) (c + dc d) \<and>
              tileable (put (put g r c True) (r + dr d) (c + dc d) True)"
  using assms by (cases rule: tileable.cases) auto

lemma search_complete:
  "unit_source rnd \<longrightarrow> tileable (cells st) \<longrightarrow> fst (tryPlace rnd st)"
  "unit_source rnd \<longrightarrow> \<not> cells st r c \<longrightarrow>
     (\<exists>d \<in> set ds. can_place r c d st \<and> tileable (cells (place_st rnd r c d st))) \<longrightarrow>
     fst (tryDirs rnd r c ds st)"
proof (induction rnd st and rnd r c ds st rule: tryPlace_tryDirs.induct)
  case (1 rnd st)
  show ?case
  proof (cases "findFirstEmpty (cells st)")
    case None
    then show ?thesis by (simp add: tryPlace_None)
  next
    case (Some p)
    obtain r c where p: "p = (r, c)" by (cases p)
    let ?sh = "shuffleArray rnd [Dir 0 1, Dir 1 0] (draws st)"
    let ?st1 = "st\<lparr>draws := snd ?sh\<rparr>"
    have e: "\<not> cells st r c" using findFirstEmpty_Some Some p by blast
    have eq: "tryPlace rnd st = tryDirs rnd r c (fst ?sh) ?st1"
      using Some p by (simp add: tryPlace_Some)
    show ?thesis
    proof (intro impI)
      assume u: "unit_source rnd" and t: "tileable (cells st)"
      from tileable_cases[OF t] Some p obtain d where
        d: "d = Dir 0 1 \<or> d = Dir 1 0" "r + dr d < SIZE" "c + dc d < SIZE"
           "\<not> cells st (r + dr d) (c + dc d)"
           "tileable (put (put (cells st) r c True) (r + dr d) (c + dc d) True)"
        by blast
      have "d \<in> set (fst ?sh)"
        using shuffleArray_set[OF u, of "[Dir 0 1, Dir 1 0]" "draws st"] d(1) by auto
      moreover have "can_place r c d ?st1" using d by (simp add: can_place_def)
      moreover have "tileable (cells (place_st rnd r c d ?st1))" using d(5) by (simp add: place_st_def)
      ultimately have "\<exists>d \<in> set (fst ?sh). can_place r c d ?st1 \<and> tileable (cells (place_st rnd r c d ?st1))"
        by blast
      with 1[OF Some p[symmetric] refl] u e show "fst (tryPlace rnd st)"
        unfolding eq by simp
    qed
  qed
next
  case (2 rnd r c st)
  show ?case by simp
next
  case (3 rnd r c d ds st)
  show ?case
  proof (intro impI)
    assume u: "unit_source rnd" and e: "\<not> cells st r c"
      and ex: "\<exists>d' \<in> set (d # ds). can_place r c d' st \<and> tileable (cells (place_st rnd r c d' st))"
    show "fst (tryDirs rnd r c (d # ds) st)"
    proof (cases "can_place r c d st")
      case False
      then have g: "\<not> (r + dr d < SIZE \<and> c + dc d < SIZE \<and> \<not> cells st (r + dr d) (c + dc d))"
        by (simp add: can_place_def)
      from ex False have "\<exists>d' \<in> set ds. can_place r c d' st \<and> tileable (cells (place_st rnd r c d' st))"
        by auto
      with 3(3)[OF refl refl g] u e False show ?thesis by (simp add: tryDirs_Cons)
    next
      case True
      then have g: "r + dr d < SIZE \<and> c + dc d < SIZE \<and> \<not> cells st (r + dr d) (c + dc d)"
        by (simp add: can_place_def)
      let ?res = "tryPlace rnd (place_st rnd r c d st)"
      let ?st2 = "unplace_st r c d (snd ?res)"
      show ?thesis
      proof (cases "fst ?res")
        case t: True
        then show ?thesis using True by (simp add: tryDirs_Cons)
      next
        case f: False
        have eq: "tryDirs rnd r c (d # ds) st = tryDirs rnd r c ds ?st2"
          using True f by (simp add: tryDirs_Cons)
        have "\<not> tileable (cells (place_st rnd r c d st))"
          using 3(1)[OF refl refl g refl refl] u f by (auto simp: place_st_def)
        with ex obtain d' where d': "d' \<in> set ds" "can_place r c d' st"
            "tileable (cells (place_st rnd r c d' st))" by auto
        have r1: "cells (snd ?res) = cells (place_st rnd r c d st) \<and>
                  tiles (snd ?res) = tiles (place_st rnd r c d st)"
          using fail_restores(1)[of rnd "place_st rnd r c d st"] f by simp
        have u2: "cells ?st2 = cells st \<and> tiles ?st2 = tiles st"
          using unplace_place[OF e True] r1 by blast
        have "can_place r c d' ?st2" "cells (place_st rnd r c d' ?st2) = cells (place_st rnd r c d' st)"
          using d'(2) u2 by (simp_all add: can_place_def place_st_def)
        then have ex2: "\<exists>d' \<in> set ds. can_place r c d' ?st2 \<and> tileable (cells (place_st rnd r c d' ?st2))"
          using d' by auto
        have ih: "unit_source rnd \<longrightarrow> \<not> cells ?st2 r c \<longrightarrow>
            (\<exists>d' \<in> set ds. can_place r c d' ?st2 \<and> tileable (cells (place_st rnd r c d' ?st2))) \<longrightarrow>
            fst (tryDirs rnd r c ds ?st2)"
          using 3(2)[OF refl refl g refl refl refl] f
          by (simp add: place_st_def unplace_st_def)
        from ih u e u2 ex2 show ?thesis unfolding eq by simp
      qed
    qed
  qed
qed

lemma upt4: "[0..<4] = [0, 1, 2, 3::nat]"
  by (simp add: upt_rec)

lemma positions_explicit:
  "positions = [(0,0),(0,1),(0,2),(0,3),(1,0),(1,1),(1,2),(1,3),
                (2,0),(2,1),(2,2),(2,3),(3,0),(3,1),(3,2),(3,3)]"
  by (simp add: positions_def SIZE_def upt4)

lemma tileable_empty: "tileable (\<lambda>r c. False)"
  apply (rule t_step[where r = 0 and c = 0 and d = "Dir 0 1"], simp add: findFirstEmpty_def positions_explicit put_apply, simp, simp add: SIZE_def, simp add: SIZE_def, simp add: put_apply)
  apply (rule t_step[where r = 0 and c = 2 and d = "Dir 0 1"], simp add: findFirstEmpty_def positions_explicit put_apply, simp, simp add: SIZE_def, simp add: SIZE_def, simp add: put_apply)
  apply (rule t_step[where r = 1 and c = 0 and d = "Dir 0 1"], simp add: findFirstEmpty_def positions_explicit put_apply, simp, simp add: SIZE_def, simp add: SIZE_def, simp add: put_apply)
  apply (rule t_step[where r = 1 and c = 2 and d = "Dir 0 1"], simp add: findFirstEmpty_def positions_explicit put_apply, simp, simp add: SIZE_def, simp add: SIZE_def, simp add: put_apply)
  apply (rule t_step[where r = 2 and c = 0 and d = "Dir 0 1"], simp add: findFirstEmpty_def positions_explicit put_apply, simp, simp add: SIZE_def, simp add: SIZE_def, simp add: put_apply)
  apply (rule t_step[where r = 2 and c = 2 and d = "Dir 0 1"], simp add: findFirstEmpty_def positions_explicit put_apply, simp, simp add: SIZE_def, simp add: SIZE_def, simp add: put_apply)
  apply (rule t_step[where r = 3 and c = 0 and d = "Dir 0 1"], simp add: findFirstEmpty_def positions_explicit put_apply, simp, simp add: SIZE_def, simp add: SIZE_def, simp add: put_apply)
  apply (rule t_step[where r = 3 and c = 2 and d = "Dir 0 1"], simp add: findFirstEmpty_def positions_explicit put_apply, simp, simp add: SIZE_def, simp add: SIZE_def, simp add: put_apply)
  apply (rule t_full, simp add: findFirstEmpty_def positions_explicit put_apply)
  done

text \<open>A concrete run: the draws alternate between 0 and 1/2. The search then lays
  vertical and horizontal dominoes in turn and returns \<open>demo_tiles\<close> after 24 draws.\<close>

definition demo_rnd :: rand where
  "demo_rnd n = (if even n then 0 else 1 / 2)"

lemma demo_unit: "unit_source demo_rnd"
  by (simp add: unit_source_def demo_rnd_def)

definition demo_tiles :: "tile list" where
  "demo_tiles =
     [Tile [Cell 0 0 4, Cell 1 0 1], Tile [Cell 0 1 1, Cell 0 2 4],
      Tile [Cell 0 3 4, Cell 1 3 1], Tile [Cell 1 1 1, Cell 1 2 4],
      Tile [Cell 2 0 4, Cell 3 0 1], Tile [Cell 2 1 1, Cell 2 2 4],
      Tile [Cell 2 3 4, Cell 3 3 1], Tile [Cell 3 1 1, Cell 3 2 4]]"

lemma demo_tryPlace:
  "\<exists>g. tryPlace demo_rnd \<lparr>cells = (\<lambda>r c. False), tiles = [], draws = 0\<rparr>
     = (True, \<lparr>cells = g, tiles = demo_tiles, draws = 24\<rparr>)"
  by (simp add: tryPlace.simps tryDirs.simps findFirstEmpty_def positions_explicit put_apply
      shuffleArray_def demo_rnd_def randInt_def SIZE_def Let_def demo_tiles_def)

lemma first_attempt_succeeds:
  "unit_source rnd \<Longrightarrow> fst (tryPlace rnd \<lparr>cells = (\<lambda>r c. False), tiles = ts, draws = k\<rparr>)"
  using search_complete(1)[of rnd "\<lparr>cells = (\<lambda>r c. False), tiles = ts, draws = k\<rparr>"] tileable_empty
  by simp

lemma generate_first_attempt:
  assumes "unit_source rnd"
  shows "generateRandomTilingWithValues rnd k =
           Inr (tiles (snd (tryPlace rnd \<lparr>cells = (\<lambda>r c. False), tiles = [], draws = k\<rparr>)),
                draws (snd (tryPlace rnd \<lparr>cells = (\<lambda>r c. False), tiles = [], draws = k\<rparr>)))"
  using first_attempt_succeeds[OF assms, of "[]" k]
  by (simp add: generateRandomTilingWithValues_def attemptLoop.simps resetCells_empty)

lemma generate_valid:
  assumes "unit_source rnd" "generateRandomTilingWithValues rnd k = Inr (ts, k')"
  shows "valid_tiling ts"
proof -
  from assms(2) obtain st where "attemptLoop rnd 0 \<lparr>cells = (\<lambda>r c. False), tiles = [], draws = k\<rparr> = Inr st"
    "ts = tiles st"
    by (auto simp: generateRandomTilingWithValues_def split: sum.splits)
  then show ?thesis using attemptLoop_valid[OF assms(1)] by blast
qed

lemma demo_generate: "generateRandomTilingWithValues demo_rnd 0 = Inr (demo_tiles, 24)"
proof -
  obtain g where "tryPlace demo_rnd \<lparr>cells = (\<lambda>r c. False), tiles = [], draws = 0\<rparr>
     = (True, \<lparr>cells = g, tiles = demo_tiles, draws = 24\<rparr>)"
    using demo_tryPlace by blast
  then show ?thesis by (simp add: generate_first_attempt[OF demo_unit])
qed

section \<open>Claims about the tiling generator\<close>

text \<open>
  C2. Every tiling the generator returns has exactly 8 tiles; each tile is a cell
  and its right or its down neighbour, with both pip values between 1 and 6; and
  each of the 16 cells of the grid is covered exactly once (\<open>valid_tiling\<close>).
\<close>

theorem generated_tiling_is_valid:
  assumes "unit_source rnd"
    and "generateRandomTilingWithValues rnd k = Inr (ts, k')"
  shows "valid_tiling ts"
  using assms by (rule generate_valid)

theorem generated_tiling_is_valid_witness:
  "unit_source demo_rnd \<and>
   generateRandomTilingWithValues demo_rnd 0 = Inr (demo_tiles, 24) \<and>
   valid_tiling demo_tiles"
  using generated_tiling_is_valid[OF demo_unit demo_generate] demo_unit demo_generate
  by simp

text \<open>
  C8. Whatever the draws, the first call of \<open>tryPlace\<close> on the empty grid returns
  true, so the retry loop ends in its first round: the generator returns the tiles
  of that call and never reaches the error thrown after more than 200 attempts.
\<close>

theorem generator_never_fails:
  assumes "unit_source rnd"
  shows "fst (tryPlace rnd \<lparr>cells = (\<lambda>r c. False), tiles = [], draws = k\<rparr>) \<and>
         generateRandomTilingWithValues rnd k \<noteq> Inl GenerationFailed \<and>
         generateRandomTilingWithValues rnd k =
           Inr (tiles (snd (tryPlace rnd \<lparr>cells = (\<lambda>r c. False), tiles = [], draws = k\<rparr>)),
                draws (snd (tryPlace rnd \<lparr>cells = (\<lambda>r c. False), tiles = [], draws = k\<rparr>)))"
  using first_attempt_succeeds[OF assms, of "[]" k] generate_first_attempt[OF assms, of k]
  by simp

theorem generator_never_fails_witness:
  "unit_source demo_rnd \<and>
   fst (tryPlace demo_rnd \<lparr>cells = (\<lambda>r c. False), tiles = [], draws = 0\<rparr>) \<and>
   generateRandomTilingWithValues demo_rnd 0 = Inr (demo_tiles, 24)"
  using generator_never_fails[OF demo_unit, of 0] demo_unit demo_generate
  by simp

section \<open>Claims about the target calculator and the completion check\<close>

definition allCells :: "tile list \<Rightarrow> cell list" where
  "allCells ts = concat (map tile_cells ts)"

definition pos :: "cell \<Rightarrow> nat \<times> nat" where
  "pos cl = (cell_r cl, cell_c cl)"

definition putCell :: "int option grid \<Rightarrow> cell \<Rightarrow> int option grid" where
  "putCell b cl = put b (cell_r cl) (cell_c cl) (Some (cell_value cl))"

lemma foldl_tiles: "foldl (\<lambda>b t. foldl f b (tile_cells t)) b0 ts = foldl f b0 (allCells ts)"
  by (induction ts arbitrary: b0) (simp_all add: allCells_def)

lemma fillBoard_allCells: "fillBoard ts = foldl putCell createEmptyBoard (allCells ts)"
  unfolding fillBoard_def putCell_def[abs_def] by (rule foldl_tiles)

lemma putCell_apply:
  "putCell b x r c = (if r = cell_r x \<and> c = cell_c x then Some (cell_value x) else b r c)"
  by (simp add: putCell_def put_apply)

lemma foldl_putCell_lookup:
  "distinct (map pos cs) \<Longrightarrow> cl \<in> set cs \<Longrightarrow>
   foldl putCell b0 cs (cell_r cl) (cell_c cl) = Some (cell_value cl)"
proof (induction cs rule: rev_induct)
  case Nil
  then show ?case by simp
next
  case (snoc x xs)
  have step: "foldl putCell b0 (xs @ [x]) (cell_r cl) (cell_c cl)
      = (if cell_r cl = cell_r x \<and> cell_c cl = cell_c x then Some (cell_value x)
         else foldl putCell b0 xs (cell_r cl) (cell_c cl))"
    by (simp only: foldl_append foldl.simps putCell_apply)
  show ?case
  proof (cases "cl = x")
    case True
    then show ?thesis unfolding step by simp
  next
    case False
    with snoc.prems have m: "cl \<in> set xs" by simp
    from snoc.prems(1) have "pos x \<notin> pos ` set xs" by simp
    with m have "pos cl \<noteq> pos x" by (metis imageI)
    then have "\<not> (cell_r cl = cell_r x \<and> cell_c cl = cell_c x)" by (simp add: pos_def)
    moreover have "foldl putCell b0 xs (cell_r cl) (cell_c cl) = Some (cell_value cl)"
      using snoc.IH snoc.prems m by simp
    ultimately show ?thesis unfolding step by auto
  qed
qed

lemma covered_allCells: "covered ts = map pos (allCells ts)"
  by (simp add: covered_def allCells_def pos_def[abs_def] map_concat comp_def)

lemma pips_allCells: "pips ts = map cell_value (allCells ts)"
  by (simp add: pips_def allCells_def map_concat comp_def)

lemma valid_tiling_mset:
  assumes "valid_tiling ts"
  shows "mset (covered ts) = mset positions"
proof -
  have ok: "\<forall>t \<in> set ts. tile_ok t" and len: "length ts = 8"
    and cnt: "\<forall>p \<in> set positions. count_list (covered ts) p = 1"
    using assms by (simp_all add: valid_tiling_def list_all_iff)
  have "mset positions \<subseteq># mset (covered ts)"
  proof (rule mset_subset_eqI)
    fix p
    show "count (mset positions) p \<le> count (mset (covered ts)) p"
    proof (cases "p \<in> set positions")
      case True
      then have "count (mset positions) p = 1"
        using distinct_positions by (simp add: count_list_distinct count_mset)
      then show ?thesis using cnt True by (simp add: count_mset)
    next
      case False
      then have "count (mset positions) p = 0" by (simp add: count_mset count_list_0_iff)
      then show ?thesis by (metis le0)
    qed
  qed
  moreover have "size (mset (covered ts)) = size (mset positions)"
    using length_covered[OF ok] len length_positions by simp
  ultimately have "size (mset (covered ts) - mset positions) = 0"
    by (simp add: size_Diff_submset)
  then have "mset (covered ts) \<subseteq># mset positions"
    by (simp add: Diff_eq_empty_iff_mset)
  with \<open>mset positions \<subseteq># mset (covered ts)\<close> show ?thesis
    by (simp add: subset_mset.antisym)
qed

lemma targets_sum_positions:
  "sum_list (computeBlockTargetsFromTiles ts)
     = sum_list (map (\<lambda>(r, c). num (fillBoard ts r c)) positions)"
  by (simp add: computeBlockTargetsFromTiles_def BLOCKS_def blockCells_def positions_explicit
      Let_def upt_rec)

lemma targets_sum_pips:
  assumes "valid_tiling ts"
  shows "sum_list (computeBlockTargetsFromTiles ts) = sum_list (pips ts)"
proof -
  let ?g = "\<lambda>(r, c). num (fillBoard ts r c)"
  have m: "mset (map pos (allCells ts)) = mset positions"
    using valid_tiling_mset[OF assms] by (simp add: covered_allCells)
  then have d: "distinct (map pos (allCells ts))"
    using distinct_positions by (metis mset_eq_imp_distinct_iff)
  have "sum_list (map ?g positions) = sum_mset (image_mset ?g (mset positions))"
    by (simp add: sum_mset_sum_list[symmetric])
  also have "\<dots> = sum_mset (image_mset ?g (mset (map pos (allCells ts))))"
    by (simp only: m)
  also have "\<dots> = sum_list (map (\<lambda>cl. ?g (pos cl)) (allCells ts))"
    by (simp add: sum_mset_sum_list[symmetric] image_mset.compositionality comp_def)
  also have "\<dots> = sum_list (map cell_value (allCells ts))"
  proof -
    have "\<And>cl. cl \<in> set (allCells ts) \<Longrightarrow> ?g (pos cl) = cell_value cl"
      using foldl_putCell_lookup[OF d] by (simp add: pos_def fillBoard_allCells num_def)
    then show ?thesis by (metis (no_types, lifting) map_eq_conv)
  qed
  finally show ?thesis by (simp add: targets_sum_positions pips_allCells)
qed

lemma demo_valid: "valid_tiling demo_tiles"
  using generate_valid[OF demo_unit demo_generate] .

lemma demo_targets: "computeBlockTargetsFromTiles demo_tiles = [7, 13, 7, 13]"
  by (simp add: computeBlockTargetsFromTiles_def fillBoard_def demo_tiles_def BLOCKS_def
      blockCells_def put_apply createEmptyBoard_def num_def upt_rec)

lemma demo_pips: "sum_list (pips demo_tiles) = 40"
  by (simp add: pips_def demo_tiles_def)

text \<open>
  C5. The targets are a function of the tiling alone (the definition takes nothing
  else, so equal tilings give equal targets); there are four of them; and for a
  valid tiling their sum is the sum of all sixteen pip values.
\<close>

theorem targets_sum_to_all_pips:
  assumes "valid_tiling ts"
  shows "length (computeBlockTargetsFromTiles ts) = 4 \<and>
         sum_list (computeBlockTargetsFromTiles ts) = sum_list (pips ts) \<and>
         (\<forall>ts'. ts' = ts \<longrightarrow> computeBlockTargetsFromTiles ts' = computeBlockTargetsFromTiles ts)"
proof -
  have "length (computeBlockTargetsFromTiles ts) = 4"
    by (simp add: computeBlockTargetsFromTiles_def BLOCKS_def Let_def)
  then show ?thesis using targets_sum_pips[OF assms] by simp
qed

theorem targets_sum_to_all_pips_witness:
  "valid_tiling demo_tiles \<and>
   computeBlockTargetsFromTiles demo_tiles = [7, 13, 7, 13] \<and>
   sum_list (computeBlockTargetsFromTiles demo_tiles) = 40 \<and>
   sum_list (pips demo_tiles) = 40"
  using targets_sum_to_all_pips[OF demo_valid] demo_valid demo_targets demo_pips
  by simp

section \<open>Completion check\<close>

definition boardFull :: "puzzle \<Rightarrow> bool" where
  "boardFull s = (\<forall>r<SIZE. \<forall>c<SIZE. board s r c \<noteq> None)"

definition blockSum :: "occupant option grid \<Rightarrow> block \<Rightarrow> int" where
  "blockSum b bl =
     occ_value (the (b (block_r bl) (block_c bl))) +
     occ_value (the (b (block_r bl) (block_c bl + 1))) +
     occ_value (the (b (block_r bl + 1) (block_c bl))) +
     occ_value (the (b (block_r bl + 1) (block_c bl + 1)))"

definition wrongBlocks :: "puzzle \<Rightarrow> nat list" where
  "wrongBlocks s =
     filter (\<lambda>i. blockSum (board s) (BLOCKS ! i) \<noteq> computeBlockTargetsFromTiles (solutionTiles s) ! i)
            [0..<4]"

lemma set_flat: "set (flat g) = {g r c | r c. r < SIZE \<and> c < SIZE}"
  by (auto simp: flat_def) blast

lemma flat_has_null: "list_ex (\<lambda>cell. cell = None) (flat (board s)) = (\<not> boardFull s)"
proof -
  have "list_ex (\<lambda>cell. cell = None) (flat (board s)) = (None \<in> set (flat (board s)))"
    by (auto simp: list_ex_iff)
  also have "\<dots> = (\<exists>r c. r < SIZE \<and> c < SIZE \<and> board s r c = None)"
    unfolding set_flat by (auto dest: sym)
  also have "\<dots> = (\<not> boardFull s)"
    by (auto simp: boardFull_def)
  finally show ?thesis .
qed

lemma wrong_loop:
  "foldl (\<lambda>(ok, wrongIdx) i. if P i then (False, wrongIdx @ [i]) else (ok, wrongIdx)) (ok0, w0) xs
     = (ok0 \<and> filter P xs = [], w0 @ filter P xs)"
  by (induction xs arbitrary: ok0 w0) auto

lemma block_sums:
  "map (\<lambda>bl. foldl (\<lambda>sum (r, c). sum + occ_value (the (b r c))) 0 (blockCells bl)) BLOCKS
     = map (blockSum b) BLOCKS"
  by (simp add: BLOCKS_def blockCells_def blockSum_def upt_rec)

lemma checkCompletion_full:
  assumes "boardFull s"
  shows "checkCompletion s =
     s\<lparr>message := (if wrongBlocks s = [] then NoticeSolved
                    else NoticeWrongBlocks (map (\<lambda>i. i + 1) (wrongBlocks s)))\<rparr>"
proof -
  let ?t = "computeBlockTargetsFromTiles (solutionTiles s)"
  have l: "length BLOCKS = 4" by (simp add: BLOCKS_def)
  have f: "filter (\<lambda>i. map (blockSum (board s)) BLOCKS ! i \<noteq> ?t ! i) [0..<length BLOCKS]
      = wrongBlocks s"
    unfolding wrongBlocks_def l
  proof (rule filter_cong[OF refl])
    fix i assume "i \<in> set [0..<4]"
    then have "i < length BLOCKS" by (simp add: BLOCKS_def)
    then show "(map (blockSum (board s)) BLOCKS ! i \<noteq> ?t ! i)
        = (blockSum (board s) (BLOCKS ! i) \<noteq> ?t ! i)" by simp
  qed
  show ?thesis
    using assms
    by (simp add: checkCompletion_def flat_has_null block_sums wrong_loop f Let_def del: upt.simps)
qed

lemma checkCompletion_not_full: "\<not> boardFull s \<Longrightarrow> checkCompletion s = s"
  by (simp add: checkCompletion_def flat_has_null)

lemma boardFull_positions: "boardFull s = list_all (\<lambda>(r, c). board s r c \<noteq> None) positions"
  by (auto simp: boardFull_def list_all_iff set_positions)

text \<open>The pool of that run before the shuffle, and the fresh puzzle after it.\<close>

definition demo_pool0 :: "domino list" where
  "demo_pool0 = [Domino 0 4 1, Domino 1 1 4, Domino 2 4 1, Domino 3 1 4,
                 Domino 4 4 1, Domino 5 1 4, Domino 6 4 1, Domino 7 1 4]"

lemma demo_pool0:
  "map (\<lambda>(i, t). Domino (int i) (cell_value (tile_cells t ! 0)) (cell_value (tile_cells t ! 1)))
       (enumerate 0 demo_tiles) = demo_pool0"
  by (simp add: demo_tiles_def demo_pool0_def)

lemma floor_numeral_div: "\<lfloor>numeral a / numeral b :: rat\<rfloor> = numeral a div numeral b"
  using floor_divide_of_int_eq[of "numeral a" "numeral b", where ?'a = rat] by simp

lemma demo_shuffle:
  "fst (shuffleArray demo_rnd demo_pool0 24) =
     [Domino 4 4 1, Domino 6 4 1, Domino 1 1 4, Domino 5 1 4,
      Domino 2 4 1, Domino 7 1 4, Domino 3 1 4, Domino 0 4 1]"
  by (simp add: shuffleArray_def demo_pool0_def demo_rnd_def Let_def floor_numeral_div)

definition demo_start :: puzzle where
  "demo_start =
     \<lparr>solutionTiles = demo_tiles,
      pool = [Domino 4 4 1, Domino 6 4 1, Domino 1 1 4, Domino 5 1 4,
              Domino 2 4 1, Domino 7 1 4, Domino 3 1 4, Domino 0 4 1],
      placed = [],
      selectedDominoId = None,
      selectionClicks = [],
      board = createEmptyBoard,
      history = [],
      message = NoticeStart\<rparr>"

lemma demo_init: "initPuzzle demo_rnd = Inr demo_start"
  by (simp only: initPuzzle_def demo_generate sum.case prod.case Let_def demo_pool0 demo_shuffle
      demo_start_def)

text \<open>The solution laid out on the board, and the same board with one value changed.\<close>

definition demo_solved :: puzzle where
  "demo_solved =
     demo_start\<lparr>board := (\<lambda>r c. Some (Occupant
        (([4, 1, 4, 4] # [1, 1, 4, 1] # [4, 1, 4, 4] # [1, 1, 4, 1] # []) ! r ! c) 0))\<rparr>"

definition demo_wrong :: puzzle where
  "demo_wrong = demo_solved\<lparr>board := put (board demo_solved) 0 0 (Some (Occupant 6 0))\<rparr>"

lemma demo_start_not_full: "\<not> boardFull demo_start"
  by (simp add: boardFull_positions positions_explicit demo_start_def createEmptyBoard_def)

lemma demo_solved_full: "boardFull demo_solved"
  by (simp add: boardFull_def demo_solved_def)

lemma demo_wrong_full: "boardFull demo_wrong"
  by (simp add: boardFull_def demo_wrong_def demo_solved_def put_apply)

lemma demo_solved_blocks: "wrongBlocks demo_solved = []"
  by (simp add: wrongBlocks_def demo_solved_def demo_start_def demo_targets BLOCKS_def blockSum_def
      upt_rec)

lemma demo_wrong_blocks: "wrongBlocks demo_wrong = [0]"
  by (simp add: wrongBlocks_def demo_wrong_def demo_solved_def demo_start_def demo_targets BLOCKS_def
      blockSum_def put_apply upt_rec)

text \<open>
  C3. \<open>checkCompletion\<close> changes nothing while a cell of the board is empty. On a
  full board it only sets the message: solved when no block sum differs from its
  target, and otherwise the list of the blocks whose sums differ, counted from 1.
\<close>

theorem checkCompletion_reports_wrong_blocks:
  "(\<not> boardFull s \<longrightarrow> checkCompletion s = s) \<and>
   (boardFull s \<longrightarrow>
      checkCompletion s =
        s\<lparr>message := (if wrongBlocks s = [] then NoticeSolved
                       else NoticeWrongBlocks (map (\<lambda>i. i + 1) (wrongBlocks s)))\<rparr>) \<and>
   (wrongBlocks s = [] \<longleftrightarrow>
      (\<forall>i<4. blockSum (board s) (BLOCKS ! i) = computeBlockTargetsFromTiles (solutionTiles s) ! i)) \<and>
   (\<forall>i. i \<in> set (wrongBlocks s) \<longleftrightarrow>
      i < 4 \<and> blockSum (board s) (BLOCKS ! i) \<noteq> computeBlockTargetsFromTiles (solutionTiles s) ! i)"
proof -
  have "wrongBlocks s = [] \<longleftrightarrow>
      (\<forall>i<4. blockSum (board s) (BLOCKS ! i) = computeBlockTargetsFromTiles (solutionTiles s) ! i)"
    by (auto simp: wrongBlocks_def filter_empty_conv)
  moreover have "\<forall>i. i \<in> set (wrongBlocks s) \<longleftrightarrow>
      i < 4 \<and> blockSum (board s) (BLOCKS ! i) \<noteq> computeBlockTargetsFromTiles (solutionTiles s) ! i"
    by (auto simp: wrongBlocks_def)
  ultimately show ?thesis
    using checkCompletion_not_full[of s] checkCompletion_full[of s] by blast
qed

theorem checkCompletion_reports_wrong_blocks_witness:
  "\<not> boardFull demo_start \<and> checkCompletion demo_start = demo_start \<and>
   boardFull demo_solved \<and> checkCompletion demo_solved = demo_solved\<lparr>message := NoticeSolved\<rparr> \<and>
   boardFull demo_wrong \<and>
   checkCompletion demo_wrong = demo_wrong\<lparr>message := NoticeWrongBlocks [1]\<rparr>"
  using checkCompletion_reports_wrong_blocks[of demo_start]
    checkCompletion_reports_wrong_blocks[of demo_solved]
    checkCompletion_reports_wrong_blocks[of demo_wrong]
    demo_start_not_full demo_solved_full demo_wrong_full demo_solved_blocks demo_wrong_blocks
  by simp

section \<open>Claims about selecting and clicking\<close>

lemma demo_reachable: "reachable demo_start"
  using r_init[OF demo_unit demo_init] .

lemma first_click:
  assumes "\<not> js_falsy (selectedDominoId s)" "selectionClicks s = []" "r < SIZE" "board s r c = None"
  shows "onCellClick r c s = Inr (s\<lparr>selectionClicks := [Click r c], message := NoticeSecondCell\<rparr>)"
  using assms by (simp add: onCellClick_def Let_def)

lemma second_click_not_adjacent:
  assumes "\<not> js_falsy (selectedDominoId s)" "selectionClicks s = [a]" "r < SIZE" "board s r c = None"
    "\<not> areAdjacent a (Click r c)"
  shows "onCellClick r c s = Inr (s\<lparr>selectionClicks := [], message := NoticeNotAdjacent\<rparr>)"
  using assms by (simp add: onCellClick_def Let_def)

lemma second_click_not_found:
  assumes "\<not> js_falsy (selectedDominoId s)" "selectionClicks s = [a]" "r < SIZE" "board s r c = None"
    "areAdjacent a (Click r c)" "find (\<lambda>d. Some (dom_id d) = selectedDominoId s) (pool s) = None"
  shows "onCellClick r c s = Inr (s\<lparr>message := NoticeNotFound, selectionClicks := []\<rparr>)"
  using assms by (simp add: onCellClick_def Let_def)

definition placeOn :: "puzzle \<Rightarrow> click \<Rightarrow> click \<Rightarrow> domino \<Rightarrow> puzzle" where
  "placeOn s a b d =
     s\<lparr>board := put (put (board s) (click_r a) (click_c a) (Some (Occupant (dom_a d) (dom_id d))))
                    (click_r b) (click_c b) (Some (Occupant (dom_b d) (dom_id d))),
       placed := placed s @ [Placement (dom_id d) [Cell (click_r a) (click_c a) (dom_a d),
                                                   Cell (click_r b) (click_c b) (dom_b d)]],
       pool := filter (\<lambda>x. dom_id x \<noteq> dom_id d) (pool s),
       history := history s @ [Entry Place (dom_id d) [Cell (click_r a) (click_c a) (dom_a d),
                                                       Cell (click_r b) (click_c b) (dom_b d)]],
       selectedDominoId := None,
       selectionClicks := [],
       message := NoticePlaced (Suc (length (placed s)))\<rparr>"

lemma second_click_places:
  assumes "\<not> js_falsy (selectedDominoId s)" "selectionClicks s = [a]" "r < SIZE" "board s r c = None"
    "areAdjacent a (Click r c)" "find (\<lambda>d. Some (dom_id d) = selectedDominoId s) (pool s) = Some d"
  shows "onCellClick r c s = Inr (checkCompletion (placeOn s a (Click r c) d))"
  using assms by (simp add: onCellClick_def Let_def placeOn_def)

lemma checkCompletion_fields:
  "board (checkCompletion s) = board s" "placed (checkCompletion s) = placed s"
  "pool (checkCompletion s) = pool s" "history (checkCompletion s) = history s"
  "selectedDominoId (checkCompletion s) = selectedDominoId s"
  "selectionClicks (checkCompletion s) = selectionClicks s"
  "solutionTiles (checkCompletion s) = solutionTiles s"
  by (simp_all add: checkCompletion_def Let_def)

text \<open>
  C1. Selecting domino 0 stores the number 0 as the selection, and the click
  handler tests the selection with \<open>!selectedDominoId\<close>, which is true of 0: the
  click on any cell is answered with the notice to select a domino first and the
  cell is not appended to the pending clicks.
\<close>

theorem click_after_selecting_domino_zero:
  assumes "find (\<lambda>p. pl_id p = 0) (placed s) = None"
  shows "selectedDominoId (onSelectDomino 0 s) = Some 0 \<and>
         selectionClicks (onSelectDomino 0 s) = [] \<and>
         onCellClick r c (onSelectDomino 0 s) =
           Inr (s\<lparr>selectedDominoId := Some 0, selectionClicks := [],
                   message := NoticeSelectFirst\<rparr>)"
  using assms by (simp add: onSelectDomino_def onCellClick_def js_falsy_def)

theorem click_after_selecting_domino_zero_witness:
  "reachable demo_start \<and>
   find (\<lambda>p. pl_id p = 0) (placed demo_start) = None \<and>
   Domino 0 4 1 \<in> set (pool demo_start) \<and>
   board demo_start 0 0 = None \<and>
   onCellClick 0 0 (onSelectDomino 0 demo_start) =
     Inr (demo_start\<lparr>selectedDominoId := Some 0, selectionClicks := [],
                      message := NoticeSelectFirst\<rparr>)"
proof -
  have h: "find (\<lambda>p. pl_id p = 0) (placed demo_start) = None"
    by (simp add: demo_start_def)
  show ?thesis
    using click_after_selecting_domino_zero[OF h, of 0 0] h demo_reachable
    by (simp add: demo_start_def createEmptyBoard_def)
qed

text \<open>
  What a placement does when the click handler accepts the selection (any number
  but 0): with no pending click and two empty cells that are adjacent, the first
  click records the cell and the second places the domino. Its value \<open>a\<close> goes to
  the cell clicked first and \<open>b\<close> to the one clicked second, both tagged with the
  domino's id; the placement is appended to \<open>placed\<close> and to \<open>history\<close>, the
  domino leaves the pool, and the selection is cleared. Nothing else of the board
  changes.
\<close>

lemma placement_follows_click_order:
  assumes "selectedDominoId s = Some i" "i \<noteq> 0" "selectionClicks s = []"
    and "r1 < SIZE" "r2 < SIZE"
    and "board s r1 c1 = None" "board s r2 c2 = None"
    and "areAdjacent (Click r1 c1) (Click r2 c2)"
    and "find (\<lambda>d. dom_id d = i) (pool s) = Some d"
  shows "\<exists>s1 s2. onCellClick r1 c1 s = Inr s1 \<and> onCellClick r2 c2 s1 = Inr s2 \<and>
           selectionClicks s1 = [Click r1 c1] \<and>
           board s2 r1 c1 = Some (Occupant (dom_a d) i) \<and>
           board s2 r2 c2 = Some (Occupant (dom_b d) i) \<and>
           (\<forall>r c. (r, c) \<noteq> (r1, c1) \<and> (r, c) \<noteq> (r2, c2) \<longrightarrow> board s2 r c = board s r c) \<and>
           placed s2 = placed s @ [Placement i [Cell r1 c1 (dom_a d), Cell r2 c2 (dom_b d)]] \<and>
           pool s2 = filter (\<lambda>x. dom_id x \<noteq> i) (pool s) \<and>
           d \<notin> set (pool s2) \<and>
           history s2 = history s @ [Entry Place i [Cell r1 c1 (dom_a d), Cell r2 c2 (dom_b d)]] \<and>
           selectedDominoId s2 = None \<and> selectionClicks s2 = [] \<and>
           solutionTiles s2 = solutionTiles s"
proof -
  let ?s1 = "s\<lparr>selectionClicks := [Click r1 c1], message := NoticeSecondCell\<rparr>"
  let ?s2 = "checkCompletion (placeOn ?s1 (Click r1 c1) (Click r2 c2) d)"
  have t: "\<not> js_falsy (selectedDominoId s)" using assms(1,2) by (simp add: js_falsy_def)
  have id: "dom_id d = i" using assms(9) by (auto simp: find_Some_iff)
  have ne: "(r1, c1) \<noteq> (r2, c2)" using assms(8) by (auto simp: areAdjacent_def)
  have 1: "onCellClick r1 c1 s = Inr ?s1"
    using first_click[OF t assms(3,4,6)] .
  have f: "find (\<lambda>d. Some (dom_id d) = selectedDominoId ?s1) (pool ?s1) = Some d"
    using assms(1,9) by simp
  have 2: "onCellClick r2 c2 ?s1 = Inr ?s2"
    by (rule second_click_places) (use t assms f in simp_all)
  have "board ?s2 r1 c1 = Some (Occupant (dom_a d) i)"
       "board ?s2 r2 c2 = Some (Occupant (dom_b d) i)"
       "\<forall>r c. (r, c) \<noteq> (r1, c1) \<and> (r, c) \<noteq> (r2, c2) \<longrightarrow> board ?s2 r c = board s r c"
    using ne id by (auto simp: checkCompletion_fields placeOn_def put_apply)
  moreover have "placed ?s2 = placed s @ [Placement i [Cell r1 c1 (dom_a d), Cell r2 c2 (dom_b d)]]"
       "pool ?s2 = filter (\<lambda>x. dom_id x \<noteq> i) (pool s)"
       "history ?s2 = history s @ [Entry Place i [Cell r1 c1 (dom_a d), Cell r2 c2 (dom_b d)]]"
       "selectedDominoId ?s2 = None" "selectionClicks ?s2 = []" "solutionTiles ?s2 = solutionTiles s"
    using id by (simp_all add: checkCompletion_fields placeOn_def)
  moreover have "d \<notin> set (pool ?s2)"
    using id by (simp add: checkCompletion_fields placeOn_def)
  ultimately show ?thesis using 1 2 by (intro exI[of _ ?s1] exI[of _ ?s2]) simp
qed

text \<open>
  C7. From a state with no pending click, two clicks on empty cells that are not
  adjacent leave the pending clicks empty and the selection, the board, the pool,
  the placements and the history as they were; when the handler accepts the
  selection, the second click is answered with the not-adjacent notice.
\<close>

theorem non_adjacent_clicks_rejected:
  assumes "selectionClicks s = []" "r1 < SIZE" "r2 < SIZE"
    and "board s r1 c1 = None" "board s r2 c2 = None"
    and "\<not> areAdjacent (Click r1 c1) (Click r2 c2)"
  shows "\<exists>s1 s2. onCellClick r1 c1 s = Inr s1 \<and> onCellClick r2 c2 s1 = Inr s2 \<and>
           selectionClicks s2 = [] \<and> selectedDominoId s2 = selectedDominoId s \<and>
           board s2 = board s \<and> pool s2 = pool s \<and> placed s2 = placed s \<and>
           history s2 = history s \<and> solutionTiles s2 = solutionTiles s \<and>
           (\<not> js_falsy (selectedDominoId s) \<longrightarrow>
              selectionClicks s1 = [Click r1 c1] \<and> message s2 = NoticeNotAdjacent)"
proof (cases "js_falsy (selectedDominoId s)")
  case True
  then show ?thesis using assms(1) by (simp add: onCellClick_def)
next
  case False
  let ?s1 = "s\<lparr>selectionClicks := [Click r1 c1], message := NoticeSecondCell\<rparr>"
  let ?s2 = "?s1\<lparr>selectionClicks := [], message := NoticeNotAdjacent\<rparr>"
  have 1: "onCellClick r1 c1 s = Inr ?s1"
    using first_click[OF False assms(1,2,4)] .
  have 2: "onCellClick r2 c2 ?s1 = Inr ?s2"
    by (rule second_click_not_adjacent) (use False assms in simp_all)
  show ?thesis using 1 2 by (intro exI[of _ ?s1] exI[of _ ?s2]) simp
qed

section \<open>The invariant of the puzzle state\<close>

text \<open>What every reachable state satisfies: the solution is a valid tiling; the ids
  of pool and placements are the numbers 0 to 7, each once; a domino in the pool
  carries the values of the solution tile of its id; the history lists the
  placements in order; each placement is two adjacent cells, the board holds exactly
  the cells of the placements, and no cell belongs to two of them; a pending click
  is on an empty cell and was made with an accepted selection.\<close>

definition domino_of :: "tile list \<Rightarrow> int \<Rightarrow> domino" where
  "domino_of sol i =
     Domino i (cell_value (tile_cells (sol ! nat i) ! 0)) (cell_value (tile_cells (sol ! nat i) ! 1))"

definition entry_of :: "placement \<Rightarrow> entry" where
  "entry_of p = Entry Place (pl_id p) (pl_cells p)"

definition placedPositions :: "puzzle \<Rightarrow> (nat \<times> nat) list" where
  "placedPositions s = concat (map (\<lambda>p. map pos (pl_cells p)) (placed s))"

definition ids_ok :: "puzzle \<Rightarrow> bool" where
  "ids_ok s =
     (distinct (map dom_id (pool s) @ map pl_id (placed s)) \<and>
      set (map dom_id (pool s)) \<union> set (map pl_id (placed s)) = {0..<8})"

definition pool_ok :: "puzzle \<Rightarrow> bool" where
  "pool_ok s = (\<forall>d \<in> set (pool s). d = domino_of (solutionTiles s) (dom_id d))"

definition placements_ok :: "puzzle \<Rightarrow> bool" where
  "placements_ok s =
     (distinct (placedPositions s) \<and>
      (\<forall>p \<in> set (placed s). \<exists>a b. pl_cells p = [a, b] \<and>
           areAdjacent (Click (cell_r a) (cell_c a)) (Click (cell_r b) (cell_c b))) \<and>
      (\<forall>p \<in> set (placed s). \<forall>cl \<in> set (pl_cells p).
           board s (cell_r cl) (cell_c cl) = Some (Occupant (cell_value cl) (pl_id p))) \<and>
      (\<forall>r c oc. board s r c = Some oc \<longrightarrow>
           (\<exists>p \<in> set (placed s). pl_id p = occ_dominoId oc \<and> Cell r c (occ_value oc) \<in> set (pl_cells p))))"

definition pending_ok :: "puzzle \<Rightarrow> bool" where
  "pending_ok s =
     (selectionClicks s = [] \<or>
      (\<exists>r c. selectionClicks s = [Click r c] \<and> r < SIZE \<and> board s r c = None \<and>
             \<not> js_falsy (selectedDominoId s)))"

definition puzzle_inv :: "puzzle \<Rightarrow> bool" where
  "puzzle_inv s =
     (valid_tiling (solutionTiles s) \<and> ids_ok s \<and> pool_ok s \<and>
      history s = map entry_of (placed s) \<and> placements_ok s \<and> pending_ok s)"

lemma pool_ids_from:
  "map dom_id (map (\<lambda>(i, t). Domino (int i) (f t) (g t)) (enumerate n ts))
     = map int [n..<n + length ts]"
proof (induction ts arbitrary: n)
  case Nil
  show ?case by simp
next
  case (Cons x xs)
  have e: "n + length (x # xs) = Suc n + length xs" by simp
  have "[n..<Suc n + length xs] = n # [Suc n..<Suc n + length xs]"
    by (rule upt_conv_Cons) simp
  then show ?case unfolding e using Cons[of "Suc n"] by simp
qed

lemma int_ids: "set (map int [0..<8]) = {0..<8}"
  by (simp add: image_int_atLeastLessThan)

lemma pool0_member:
  "d \<in> set (map (\<lambda>(i, t). Domino (int i) (cell_value (tile_cells t ! 0))
                                        (cell_value (tile_cells t ! 1))) (enumerate 0 ts))
   \<Longrightarrow> d = domino_of ts (dom_id d)"
  by (auto simp: in_set_enumerate_eq domino_of_def)

lemma init_inv:
  assumes u: "unit_source rnd" and i: "initPuzzle rnd = Inr s"
  shows "puzzle_inv s"
proof -
  from i obtain tiling k where g: "generateRandomTilingWithValues rnd 0 = Inr (tiling, k)"
    by (auto simp: initPuzzle_def split: sum.splits)
  define pool0 where "pool0 = map (\<lambda>(i, t). Domino (int i) (cell_value (tile_cells t ! 0))
                                        (cell_value (tile_cells t ! 1))) (enumerate 0 tiling)"
  have s: "s = \<lparr>solutionTiles = tiling, pool = fst (shuffleArray rnd pool0 k), placed = [],
                selectedDominoId = None, selectionClicks = [], board = createEmptyBoard,
                history = [], message = NoticeStart\<rparr>"
    using i unfolding initPuzzle_def g pool0_def by (simp only: sum.case prod.case Let_def sum.inject)
  have v: "valid_tiling tiling" using generate_valid[OF u g] .
  then have len: "length tiling = 8" by (simp add: valid_tiling_def)
  have ps: "pool s = fst (shuffleArray rnd pool0 k)" by (subst s) simp
  have m: "mset (pool s) = mset pool0" unfolding ps by (rule shuffleArray_mset[OF u])
  have i0: "map dom_id pool0 = map int [0..<8]"
    unfolding pool0_def using pool_ids_from[of _ _ 0 tiling] len by simp
  have ids: "mset (map dom_id (pool s)) = mset (map int [0..<8])"
    using arg_cong[OF m, of "image_mset dom_id"] unfolding i0[symmetric] by simp
  have d0: "distinct (map int [0..<8])" by (simp add: distinct_map)
  have d1: "distinct (map dom_id (pool s))"
    using mset_eq_imp_distinct_iff[OF ids] d0 by blast
  have s1: "set (map dom_id (pool s)) = {0..<8}"
    using arg_cong[OF ids, of set_mset] unfolding set_mset_mset int_ids .
  have 1: "ids_ok s" using d1 s1 by (simp add: ids_ok_def s)
  have ss: "set (pool s) = set pool0" using arg_cong[OF m, of set_mset] by simp
  have 2: "pool_ok s"
    unfolding pool_ok_def ss using pool0_member[of _ tiling] unfolding pool0_def by (simp add: s)
  have 3: "placements_ok s"
    by (simp add: placements_ok_def placedPositions_def createEmptyBoard_def s)
  have 4: "pending_ok s" by (simp add: pending_ok_def s)
  have 5: "history s = map entry_of (placed s)" by (simp add: s)
  have 6: "valid_tiling (solutionTiles s)" using v by (simp add: s)
  show ?thesis using 1 2 3 4 5 6 unfolding puzzle_inv_def by blast
qed

lemma inv_message: "puzzle_inv (s\<lparr>message := m\<rparr>) = puzzle_inv s"
  by (simp add: puzzle_inv_def ids_ok_def pool_ok_def placements_ok_def placedPositions_def
      pending_ok_def)

lemma checkCompletion_message: "\<exists>m. checkCompletion s = s\<lparr>message := m\<rparr>"
proof (cases "boardFull s")
  case True
  then show ?thesis using checkCompletion_full by blast
next
  case False
  then have "checkCompletion s = s\<lparr>message := message s\<rparr>"
    by (simp add: checkCompletion_not_full)
  then show ?thesis by blast
qed

lemma checkCompletion_inv: "puzzle_inv (checkCompletion s) = puzzle_inv s"
  using checkCompletion_message[of s] inv_message by metis

lemma select_inv: "puzzle_inv s \<Longrightarrow> puzzle_inv (onSelectDomino i s)"
  by (simp add: onSelectDomino_def puzzle_inv_def ids_ok_def pool_ok_def placements_ok_def
      placedPositions_def pending_ok_def split: option.splits)

lemma inv_clicks:
  "pending_ok (s\<lparr>selectionClicks := cs, message := m\<rparr>) \<Longrightarrow> puzzle_inv s \<Longrightarrow>
   puzzle_inv (s\<lparr>selectionClicks := cs, message := m\<rparr>)"
  by (simp add: puzzle_inv_def ids_ok_def pool_ok_def placements_ok_def placedPositions_def)

text \<open>Placing keeps the invariant.\<close>

lemma ids_to_placed:
  fixes P Q :: "int list"
  assumes "distinct (P @ Q)" "k \<in> set P"
  shows "distinct (filter (\<lambda>i. i \<noteq> k) P @ Q @ [k])"
    and "set (filter (\<lambda>i. i \<noteq> k) P) \<union> set (Q @ [k]) = set P \<union> set Q"
  using assms by auto

lemma ids_to_pool:
  fixes P Q :: "int list"
  assumes "distinct (P @ Q)" "Q \<noteq> []"
  shows "distinct ((P @ [last Q]) @ butlast Q)"
    and "set (P @ [last Q]) \<union> set (butlast Q) = set P \<union> set Q"
proof -
  have q: "Q = butlast Q @ [last Q]" using assms(2) by simp
  have "distinct (P @ butlast Q @ [last Q])" using assms(1) q by simp
  then show "distinct ((P @ [last Q]) @ butlast Q)" by auto
  have "set Q = set (butlast Q) \<union> {last Q}" by (subst q) simp
  then show "set (P @ [last Q]) \<union> set (butlast Q) = set P \<union> set Q" by auto
qed

lemma place_ids:
  assumes "ids_ok s" "d \<in> set (pool s)"
  shows "ids_ok (placeOn s a b d)"
proof -
  have f: "map dom_id (filter (\<lambda>x. dom_id x \<noteq> dom_id d) (pool s))
      = filter (\<lambda>i. i \<noteq> dom_id d) (map dom_id (pool s))"
    by (simp add: filter_map comp_def)
  have k: "dom_id d \<in> set (map dom_id (pool s))" using assms(2) by simp
  have dq: "distinct (map dom_id (pool s) @ map pl_id (placed s))"
    and un: "set (map dom_id (pool s)) \<union> set (map pl_id (placed s)) = {0..<8}"
    using assms(1) by (simp_all add: ids_ok_def)
  have 1: "distinct (map dom_id (pool (placeOn s a b d)) @ map pl_id (placed (placeOn s a b d)))"
    using ids_to_placed(1)[OF dq k] by (simp add: placeOn_def f)
  have 2: "set (map dom_id (pool (placeOn s a b d))) \<union> set (map pl_id (placed (placeOn s a b d)))
      = {0..<8}"
    using ids_to_placed(2)[OF dq k] un by (simp add: placeOn_def f)
  show ?thesis unfolding ids_ok_def using 1 2 by blast
qed

lemma occupied_positions:
  assumes "placements_ok s" "(r, c) \<in> set (placedPositions s)"
  shows "board s r c \<noteq> None"
proof -
  from assms(2) obtain p cl where "p \<in> set (placed s)" "cl \<in> set (pl_cells p)" "pos cl = (r, c)"
    by (auto simp: placedPositions_def)
  then show ?thesis using assms(1) by (auto simp: placements_ok_def pos_def)
qed

lemma adjacent_distinct: "areAdjacent (Click r1 c1) (Click r2 c2) \<Longrightarrow> (r1, c1) \<noteq> (r2, c2)"
  by (auto simp: areAdjacent_def)

lemma place_placements:
  assumes ok: "placements_ok s" and e: "board s r1 c1 = None" "board s r2 c2 = None"
    and adj: "areAdjacent (Click r1 c1) (Click r2 c2)"
  shows "placements_ok (placeOn s (Click r1 c1) (Click r2 c2) d)"
proof -
  let ?s' = "placeOn s (Click r1 c1) (Click r2 c2) d"
  have ne: "(r1, c1) \<noteq> (r2, c2)" using adj by (rule adjacent_distinct)
  have n1: "(r1, c1) \<notin> set (placedPositions s)" "(r2, c2) \<notin> set (placedPositions s)"
    using occupied_positions[OF ok, of r1 c1] occupied_positions[OF ok, of r2 c2] e by auto
  have b': "\<And>r c. board ?s' r c =
      (if r = r2 \<and> c = c2 then Some (Occupant (dom_b d) (dom_id d))
       else if r = r1 \<and> c = c1 then Some (Occupant (dom_a d) (dom_id d))
       else board s r c)"
    by (simp add: placeOn_def put_apply)
  have pl: "placed ?s' = placed s @ [Placement (dom_id d) [Cell r1 c1 (dom_a d), Cell r2 c2 (dom_b d)]]"
    by (simp add: placeOn_def)
  have pp: "placedPositions ?s' = placedPositions s @ [(r1, c1), (r2, c2)]"
    by (simp add: placedPositions_def pl pos_def)
  have 1: "distinct (placedPositions ?s')"
    unfolding pp using ok n1 ne by (simp add: placements_ok_def)
  have 2: "\<forall>p \<in> set (placed ?s'). \<exists>a b. pl_cells p = [a, b] \<and>
           areAdjacent (Click (cell_r a) (cell_c a)) (Click (cell_r b) (cell_c b))"
    unfolding pl using ok adj by (auto simp: placements_ok_def)
  have 3: "\<forall>p \<in> set (placed ?s'). \<forall>cl \<in> set (pl_cells p).
           board ?s' (cell_r cl) (cell_c cl) = Some (Occupant (cell_value cl) (pl_id p))"
  proof (intro ballI)
    fix p cl assume p: "p \<in> set (placed ?s')" and cl: "cl \<in> set (pl_cells p)"
    show "board ?s' (cell_r cl) (cell_c cl) = Some (Occupant (cell_value cl) (pl_id p))"
    proof (cases "p \<in> set (placed s)")
      case True
      then have o: "board s (cell_r cl) (cell_c cl) = Some (Occupant (cell_value cl) (pl_id p))"
        using ok cl by (simp add: placements_ok_def)
      then have "(cell_r cl, cell_c cl) \<noteq> (r1, c1)" "(cell_r cl, cell_c cl) \<noteq> (r2, c2)"
        using e by auto
      then show ?thesis using o by (auto simp: b')
    next
      case False
      then have "p = Placement (dom_id d) [Cell r1 c1 (dom_a d), Cell r2 c2 (dom_b d)]"
        using p pl by simp
      then show ?thesis using cl ne by (auto simp: b')
    qed
  qed
  have 4: "\<forall>r c oc. board ?s' r c = Some oc \<longrightarrow>
           (\<exists>p \<in> set (placed ?s'). pl_id p = occ_dominoId oc \<and> Cell r c (occ_value oc) \<in> set (pl_cells p))"
  proof (intro allI impI)
    fix r c oc assume o: "board ?s' r c = Some oc"
    show "\<exists>p \<in> set (placed ?s'). pl_id p = occ_dominoId oc \<and> Cell r c (occ_value oc) \<in> set (pl_cells p)"
    proof (cases "(r, c) = (r2, c2) \<or> (r, c) = (r1, c1)")
      case True
      then show ?thesis using o unfolding pl by (auto simp: b' split: if_splits)
    next
      case False
      then have "board s r c = Some oc" using o by (auto simp: b')
      then show ?thesis using ok unfolding pl by (auto simp: placements_ok_def)
    qed
  qed
  show ?thesis unfolding placements_ok_def using 1 2 3 4 by blast
qed

lemma place_inv:
  assumes inv: "puzzle_inv s" and t: "\<not> js_falsy (selectedDominoId s)"
    and cl: "selectionClicks s = [a]" and e: "board s r c = None"
    and adj: "areAdjacent a (Click r c)"
    and f: "find (\<lambda>d. Some (dom_id d) = selectedDominoId s) (pool s) = Some d"
  shows "puzzle_inv (placeOn s a (Click r c) d)"
proof -
  from inv cl obtain r1 c1 where a: "a = Click r1 c1" and e1: "board s r1 c1 = None"
    by (auto simp: puzzle_inv_def pending_ok_def)
  have d: "d \<in> set (pool s)" using f by (auto simp: find_Some_iff)
  have 1: "ids_ok (placeOn s a (Click r c) d)" using place_ids inv d by (simp add: puzzle_inv_def)
  have 2: "placements_ok (placeOn s a (Click r c) d)"
    unfolding a using place_placements[OF _ e1 e] inv adj a by (simp add: puzzle_inv_def)
  have 3: "pool_ok (placeOn s a (Click r c) d)"
    using inv by (simp add: puzzle_inv_def pool_ok_def placeOn_def)
  have 4: "history (placeOn s a (Click r c) d) = map entry_of (placed (placeOn s a (Click r c) d))"
    using inv by (simp add: puzzle_inv_def placeOn_def entry_of_def)
  have 5: "pending_ok (placeOn s a (Click r c) d)" by (simp add: pending_ok_def placeOn_def)
  have 6: "valid_tiling (solutionTiles (placeOn s a (Click r c) d))"
    using inv by (simp add: puzzle_inv_def placeOn_def)
  show ?thesis unfolding puzzle_inv_def using 1 2 3 4 5 6 by blast
qed

lemma click_inv:
  assumes inv: "puzzle_inv s" and c: "onCellClick r c s = Inr s'"
  shows "puzzle_inv s'"
proof (cases "js_falsy (selectedDominoId s)")
  case True
  then have "s' = s\<lparr>message := NoticeSelectFirst\<rparr>" using c by (simp add: onCellClick_def)
  then show ?thesis using inv inv_message by simp
next
  case t: False
  have r: "r < SIZE" using c t by (auto simp: onCellClick_def split: if_splits)
  show ?thesis
  proof (cases "board s r c = None")
    case False
    then have "s' = s\<lparr>message := NoticeOccupied\<rparr>" using c t r by (simp add: onCellClick_def)
    then show ?thesis using inv inv_message by simp
  next
    case e: True
    from inv have "pending_ok s" by (simp add: puzzle_inv_def)
    then consider "selectionClicks s = []" | a where "selectionClicks s = [a]"
      by (auto simp: pending_ok_def)
    then show ?thesis
    proof cases
      case 1
      then have s': "s' = s\<lparr>selectionClicks := [Click r c], message := NoticeSecondCell\<rparr>"
        using first_click[OF t 1 r e] c by simp
      have "pending_ok (s\<lparr>selectionClicks := [Click r c], message := NoticeSecondCell\<rparr>)"
        using t r e by (simp add: pending_ok_def)
      then show ?thesis unfolding s' using inv by (rule inv_clicks)
    next
      case (2 a)
      show ?thesis
      proof (cases "areAdjacent a (Click r c)")
        case False
        then have s': "s' = s\<lparr>selectionClicks := [], message := NoticeNotAdjacent\<rparr>"
          using second_click_not_adjacent[OF t 2 r e] c by simp
        show ?thesis unfolding s' using inv by (intro inv_clicks) (simp_all add: pending_ok_def)
      next
        case adj: True
        show ?thesis
        proof (cases "find (\<lambda>d. Some (dom_id d) = selectedDominoId s) (pool s)")
          case None
          then have s': "s' = s\<lparr>selectionClicks := [], message := NoticeNotFound\<rparr>"
            using second_click_not_found[OF t 2 r e adj] c by simp
          show ?thesis unfolding s' using inv by (intro inv_clicks) (simp_all add: pending_ok_def)
        next
          case (Some d)
          then have s': "s' = checkCompletion (placeOn s a (Click r c) d)"
            using second_click_places[OF t 2 r e adj] c by simp
          show ?thesis unfolding s' checkCompletion_inv
            using place_inv[OF inv t 2 e adj Some] .
        qed
      qed
    qed
  qed
qed

text \<open>Undo keeps the invariant, and never throws in a state that satisfies it.\<close>

definition undone :: "puzzle \<Rightarrow> puzzle" where
  "undone s =
     (let p = last (placed s)
      in s\<lparr>history := butlast (history s),
           board := foldl (\<lambda>g cell. put g (cell_r cell) (cell_c cell) None) (board s) (pl_cells p),
           pool := pool s @ [domino_of (solutionTiles s) (pl_id p)],
           placed := butlast (placed s),
           message := NoticeUndone\<rparr>)"

lemma filter_last:
  assumes "distinct (map f xs)" "xs \<noteq> []"
  shows "filter (\<lambda>p. f p \<noteq> f (last xs)) xs = butlast xs"
proof -
  have x: "xs = butlast xs @ [last xs]" using assms(2) by simp
  have "distinct (map f (butlast xs) @ [f (last xs)])" using assms(1) by (subst (asm) x) simp
  then have "f (last xs) \<notin> f ` set (butlast xs)" by simp
  then have "\<forall>p \<in> set (butlast xs). f p \<noteq> f (last xs)" by (metis imageI)
  then have "filter (\<lambda>p. f p \<noteq> f (last xs)) (butlast xs @ [last xs]) = butlast xs" by simp
  then show ?thesis using x by simp
qed

lemma tile_two_cells:
  assumes "valid_tiling ts" "i < length ts"
  shows "length (tile_cells (ts ! i)) = 2"
proof -
  have "tile_ok (ts ! i)" using assms by (simp add: valid_tiling_def list_all_length)
  then show ?thesis by (auto simp: tile_ok_def split: list.splits)
qed

lemma undo_unfold:
  assumes inv: "puzzle_inv s" and h: "history s \<noteq> []"
  shows "undo s = Inr (undone s)"
proof -
  have hp: "history s = map entry_of (placed s)" using inv by (simp add: puzzle_inv_def)
  then have ne: "placed s \<noteq> []" using h by auto
  have lst: "last (history s) = entry_of (last (placed s))" using hp ne by (simp add: last_map)
  have "pl_id (last (placed s)) \<in> set (map pl_id (placed s))" using ne by simp
  then have "pl_id (last (placed s)) \<in> {0..<8}" using inv by (auto simp: puzzle_inv_def ids_ok_def)
  then have rng: "0 \<le> pl_id (last (placed s))" "nat (pl_id (last (placed s))) < 8" by auto
  have v: "valid_tiling (solutionTiles s)" using inv by (simp add: puzzle_inv_def)
  then have len: "length (solutionTiles s) = 8" by (simp add: valid_tiling_def)
  have two: "length (tile_cells (solutionTiles s ! nat (pl_id (last (placed s))))) = 2"
    using tile_two_cells[OF v] rng len by simp
  have d: "distinct (map pl_id (placed s))" using inv by (simp add: puzzle_inv_def ids_ok_def)
  have fl: "filter (\<lambda>p. pl_id p \<noteq> pl_id (last (placed s))) (placed s) = butlast (placed s)"
    using filter_last[OF d ne] .
  show ?thesis
    using h rng len two
    by (simp add: undo_def Let_def lst entry_of_def undone_def domino_of_def fl)
qed

lemma undo_inv_step:
  assumes inv: "puzzle_inv s" and h: "history s \<noteq> []"
  shows "puzzle_inv (undone s)"
proof -
  have hp: "history s = map entry_of (placed s)" using inv by (simp add: puzzle_inv_def)
  then have ne: "placed s \<noteq> []" using h by auto
  define p0 where "p0 = last (placed s)"
  have pl: "placed s = butlast (placed s) @ [p0]" using ne by (simp add: p0_def)
  have ok: "placements_ok s" using inv by (simp add: puzzle_inv_def)
  have p0in: "p0 \<in> set (placed s)" using ne by (simp add: p0_def)
  then obtain a b where ab: "pl_cells p0 = [a, b]" using ok by (auto simp: placements_ok_def)
  have b': "\<And>r c. board (undone s) r c =
      (if (r, c) = pos b \<or> (r, c) = pos a then None else board s r c)"
    by (auto simp: undone_def Let_def p0_def[symmetric] ab put_apply pos_def)
  have pp: "placedPositions s = placedPositions (undone s) @ [pos a, pos b]"
    by (subst placedPositions_def, subst pl) (simp add: placedPositions_def undone_def Let_def ab)
  have dpp: "distinct (placedPositions (undone s) @ [pos a, pos b])"
    using ok unfolding pp[symmetric] by (simp add: placements_ok_def)
  have pu: "placed (undone s) = butlast (placed s)" by (simp add: undone_def Let_def)
  have sub: "\<And>p. p \<in> set (placed (undone s)) \<Longrightarrow> p \<in> set (placed s)"
    unfolding pu by (rule in_set_butlastD)
  have 1: "ids_ok (undone s)"
  proof -
    have dq: "distinct (map dom_id (pool s) @ map pl_id (placed s))"
      and un: "set (map dom_id (pool s)) \<union> set (map pl_id (placed s)) = {0..<8}"
      using inv by (simp_all add: puzzle_inv_def ids_ok_def)
    have ne': "map pl_id (placed s) \<noteq> []" using ne by simp
    have l: "last (map pl_id (placed s)) = pl_id p0" using ne by (simp add: last_map p0_def)
    have "distinct (map dom_id (pool (undone s)) @ map pl_id (placed (undone s)))"
      using ids_to_pool(1)[OF dq ne'] unfolding l
      by (simp add: undone_def Let_def p0_def[symmetric] domino_of_def map_butlast)
    moreover have "set (map dom_id (pool (undone s))) \<union> set (map pl_id (placed (undone s))) = {0..<8}"
      using ids_to_pool(2)[OF dq ne'] un unfolding l
      by (simp add: undone_def Let_def p0_def[symmetric] domino_of_def map_butlast)
    ultimately show ?thesis unfolding ids_ok_def by blast
  qed
  have 2: "pool_ok (undone s)"
    using inv by (auto simp: puzzle_inv_def pool_ok_def undone_def Let_def domino_of_def)
  have 3: "history (undone s) = map entry_of (placed (undone s))"
    using hp by (simp add: undone_def Let_def map_butlast)
  have 4: "placements_ok (undone s)"
  proof -
    have a1: "distinct (placedPositions (undone s))" using dpp by simp
    have a2: "\<forall>p \<in> set (placed (undone s)). \<exists>a b. pl_cells p = [a, b] \<and>
           areAdjacent (Click (cell_r a) (cell_c a)) (Click (cell_r b) (cell_c b))"
      using ok sub by (simp add: placements_ok_def)
    have a3: "\<forall>p \<in> set (placed (undone s)). \<forall>cl \<in> set (pl_cells p).
           board (undone s) (cell_r cl) (cell_c cl) = Some (Occupant (cell_value cl) (pl_id p))"
    proof (intro ballI)
      fix p cl assume p: "p \<in> set (placed (undone s))" and cl: "cl \<in> set (pl_cells p)"
      then have "pos cl \<in> set (placedPositions (undone s))"
        by (auto simp: placedPositions_def)
      then have "pos cl \<noteq> pos a" "pos cl \<noteq> pos b" using dpp by auto
      moreover have "board s (cell_r cl) (cell_c cl) = Some (Occupant (cell_value cl) (pl_id p))"
        using ok sub[OF p] cl by (simp add: placements_ok_def)
      ultimately show "board (undone s) (cell_r cl) (cell_c cl) = Some (Occupant (cell_value cl) (pl_id p))"
        by (simp add: b' pos_def)
    qed
    have a4: "\<forall>r c oc. board (undone s) r c = Some oc \<longrightarrow>
           (\<exists>p \<in> set (placed (undone s)). pl_id p = occ_dominoId oc \<and>
                Cell r c (occ_value oc) \<in> set (pl_cells p))"
    proof (intro allI impI)
      fix r c oc assume o: "board (undone s) r c = Some oc"
      then have n: "(r, c) \<noteq> pos a" "(r, c) \<noteq> pos b" and o': "board s r c = Some oc"
        by (auto simp: b' split: if_splits)
      from o' obtain p where p: "p \<in> set (placed s)" "pl_id p = occ_dominoId oc"
          "Cell r c (occ_value oc) \<in> set (pl_cells p)"
        using ok unfolding placements_ok_def by blast
      have "p \<noteq> p0" using p(3) n ab by (auto simp: pos_def)
      then have "p \<in> set (placed (undone s))" using p(1) unfolding pu by (subst (asm) pl) auto
      then show "\<exists>p \<in> set (placed (undone s)). pl_id p = occ_dominoId oc \<and>
                Cell r c (occ_value oc) \<in> set (pl_cells p)"
        using p by blast
    qed
    show ?thesis unfolding placements_ok_def using a1 a2 a3 a4 by blast
  qed
  have 5: "pending_ok (undone s)"
  proof -
    have "pending_ok s" using inv by (simp add: puzzle_inv_def)
    moreover have "selectionClicks (undone s) = selectionClicks s"
      "selectedDominoId (undone s) = selectedDominoId s"
      by (simp_all add: undone_def Let_def)
    ultimately show ?thesis by (auto simp: pending_ok_def b')
  qed
  have 6: "valid_tiling (solutionTiles (undone s))"
    using inv by (simp add: puzzle_inv_def undone_def Let_def)
  show ?thesis unfolding puzzle_inv_def using 1 2 3 4 5 6 by blast
qed

lemma undo_inv:
  assumes inv: "puzzle_inv s" and u: "undo s = Inr s'"
  shows "puzzle_inv s'"
proof (cases "history s = []")
  case True
  then have "s' = s\<lparr>message := NoticeNothingToUndo\<rparr>" using u by (simp add: undo_def)
  then show ?thesis using inv inv_message by simp
next
  case False
  then show ?thesis using undo_unfold[OF inv False] undo_inv_step[OF inv False] u by simp
qed

lemma reachable_inv: "reachable s \<Longrightarrow> puzzle_inv s"
proof (induction rule: reachable.induct)
  case (r_init rnd s)
  then show ?case by (rule init_inv)
next
  case (r_select s i)
  then show ?case by (simp add: select_inv)
next
  case (r_click s r c s')
  then show ?case using click_inv by blast
next
  case (r_undo s s')
  then show ?case using undo_inv by blast
next
  case (r_restart s rnd s')
  then show ?case using init_inv by (simp add: restart_def)
qed

section \<open>A short game, by evaluation\<close>

text \<open>From the fresh puzzle: select domino 4, click (0,0), click (0,1), undo.\<close>

definition demo_selected :: puzzle where
  "demo_selected = demo_start\<lparr>selectedDominoId := Some 4, selectionClicks := [],
                              message := NoticeSelected\<rparr>"

definition demo_one :: puzzle where
  "demo_one = demo_selected\<lparr>selectionClicks := [Click 0 0], message := NoticeSecondCell\<rparr>"

definition demo_placed :: puzzle where
  "demo_placed = placeOn demo_one (Click 0 0) (Click 0 1) (Domino 4 4 1)"

definition demo_undone :: puzzle where
  "demo_undone = undone demo_placed"

lemma demo_select: "onSelectDomino 4 demo_start = demo_selected"
  by (simp add: onSelectDomino_def demo_selected_def demo_start_def)

lemma demo_click1: "onCellClick 0 0 demo_selected = Inr demo_one"
  unfolding demo_one_def
  by (rule first_click)
     (simp_all add: demo_selected_def demo_start_def js_falsy_def SIZE_def createEmptyBoard_def)

lemma demo_placed_not_full: "\<not> boardFull demo_placed"
proof -
  have "board demo_placed 3 3 = None"
    by (simp add: demo_placed_def placeOn_def demo_one_def demo_selected_def demo_start_def
        put_apply createEmptyBoard_def)
  moreover have "(3::nat) < SIZE" by (simp add: SIZE_def)
  ultimately show ?thesis unfolding boardFull_def by blast
qed

lemma demo_click2: "onCellClick 0 1 demo_one = Inr demo_placed"
proof -
  have "onCellClick 0 1 demo_one = Inr (checkCompletion (placeOn demo_one (Click 0 0) (Click 0 1) (Domino 4 4 1)))"
    by (rule second_click_places)
       (simp_all add: demo_one_def demo_selected_def demo_start_def js_falsy_def SIZE_def
          createEmptyBoard_def areAdjacent_def)
  then show ?thesis
    using checkCompletion_not_full[OF demo_placed_not_full] by (simp add: demo_placed_def)
qed

lemma demo_selected_reachable: "reachable demo_selected"
  using r_select[OF demo_reachable, of 4] by (simp add: demo_select)

lemma demo_one_reachable: "reachable demo_one"
  by (rule r_click[OF demo_selected_reachable _ _ demo_click1]) (simp_all add: SIZE_def)

lemma demo_placed_reachable: "reachable demo_placed"
  by (rule r_click[OF demo_one_reachable _ _ demo_click2]) (simp_all add: SIZE_def)

lemma demo_placed_fields:
  "placed demo_placed = [Placement 4 [Cell 0 0 4, Cell 0 1 1]]"
  "history demo_placed = [Entry Place 4 [Cell 0 0 4, Cell 0 1 1]]"
  "pool demo_placed = [Domino 6 4 1, Domino 1 1 4, Domino 5 1 4,
                       Domino 2 4 1, Domino 7 1 4, Domino 3 1 4, Domino 0 4 1]"
  "selectedDominoId demo_placed = None" "selectionClicks demo_placed = []"
  "solutionTiles demo_placed = demo_tiles"
  "board demo_placed 0 0 = Some (Occupant 4 4)" "board demo_placed 0 1 = Some (Occupant 1 4)"
  by (simp_all add: demo_placed_def placeOn_def demo_one_def demo_selected_def demo_start_def
      put_apply)

lemma demo_undo: "undo demo_placed = Inr demo_undone"
  unfolding demo_undone_def
  by (rule undo_unfold[OF reachable_inv[OF demo_placed_reachable]]) (simp add: demo_placed_fields)

lemma demo_undone_fields:
  "placed demo_undone = []" "history demo_undone = []"
  "pool demo_undone = [Domino 6 4 1, Domino 1 1 4, Domino 5 1 4,
                       Domino 2 4 1, Domino 7 1 4, Domino 3 1 4, Domino 0 4 1, Domino 4 4 1]"
  "selectedDominoId demo_undone = None" "selectionClicks demo_undone = []"
  "board demo_undone = createEmptyBoard"
  by (simp_all add: demo_undone_def undone_def Let_def demo_placed_fields domino_of_def
        demo_tiles_def)
     (auto simp: demo_placed_def placeOn_def demo_one_def demo_selected_def demo_start_def
        put_apply createEmptyBoard_def fun_eq_iff)

section \<open>Claims about the reachable states\<close>

lemma same_placement:
  assumes "distinct (map pl_id ps)" "p \<in> set ps" "q \<in> set ps" "pl_id p = pl_id q"
  shows "p = q"
  using assms by (meson distinct_map inj_onD)

lemma areAdjacent_sym: "areAdjacent a b \<Longrightarrow> areAdjacent b a"
  by (simp add: areAdjacent_def abs_minus_commute)

lemma inv_same_domino_adjacent:
  assumes inv: "puzzle_inv s"
    and o: "board s r c = Some oc" "board s r' c' = Some oc'"
    and same: "occ_dominoId oc = occ_dominoId oc'" and ne: "(r, c) \<noteq> (r', c')"
  shows "areAdjacent (Click r c) (Click r' c')"
proof -
  have ok: "placements_ok s" and d: "distinct (map pl_id (placed s))"
    using inv by (simp_all add: puzzle_inv_def ids_ok_def)
  from ok o(1) obtain p where p: "p \<in> set (placed s)" "pl_id p = occ_dominoId oc"
      "Cell r c (occ_value oc) \<in> set (pl_cells p)"
    unfolding placements_ok_def by blast
  from ok o(2) obtain q where q: "q \<in> set (placed s)" "pl_id q = occ_dominoId oc'"
      "Cell r' c' (occ_value oc') \<in> set (pl_cells q)"
    unfolding placements_ok_def by blast
  have pq: "p = q" using same_placement[OF d p(1) q(1)] p(2) q(2) same by simp
  from ok p(1) obtain a b where ab: "pl_cells p = [a, b]"
      "areAdjacent (Click (cell_r a) (cell_c a)) (Click (cell_r b) (cell_c b))"
    unfolding placements_ok_def by blast
  from p(3) q(3) pq ab(1) ne
  have "(a = Cell r c (occ_value oc) \<and> b = Cell r' c' (occ_value oc')) \<or>
        (b = Cell r c (occ_value oc) \<and> a = Cell r' c' (occ_value oc'))"
    by auto
  then show ?thesis using ab(2) areAdjacent_sym by auto
qed

lemma inv_board_positions:
  assumes "puzzle_inv s"
  shows "(board s r c \<noteq> None) = ((r, c) \<in> set (placedPositions s))"
proof
  assume "board s r c \<noteq> None"
  then obtain oc where "board s r c = Some oc" by auto
  then obtain p where "p \<in> set (placed s)" "Cell r c (occ_value oc) \<in> set (pl_cells p)"
    using assms unfolding puzzle_inv_def placements_ok_def by blast
  then have "pos (Cell r c (occ_value oc)) \<in> set (placedPositions s)"
    unfolding placedPositions_def by auto
  then show "(r, c) \<in> set (placedPositions s)" by (simp add: pos_def)
next
  assume "(r, c) \<in> set (placedPositions s)"
  then show "board s r c \<noteq> None"
    using occupied_positions assms by (simp add: puzzle_inv_def)
qed

text \<open>
  C9. In every reachable state: no cell is covered by two placement cells, and the
  board holds an occupant exactly at the covered cells; two different cells whose
  occupants carry the same domino id are adjacent; and no id occurs twice in the
  pool and the placements together.
\<close>

theorem reachable_state_invariant:
  assumes "reachable s"
  shows "distinct (placedPositions s) \<and>
         (\<forall>r c. (board s r c \<noteq> None) = ((r, c) \<in> set (placedPositions s))) \<and>
         (\<forall>r c r' c' oc oc'.
             board s r c = Some oc \<and> board s r' c' = Some oc' \<and>
             occ_dominoId oc = occ_dominoId oc' \<and> (r, c) \<noteq> (r', c') \<longrightarrow>
             areAdjacent (Click r c) (Click r' c')) \<and>
         distinct (map dom_id (pool s) @ map pl_id (placed s))"
proof -
  have inv: "puzzle_inv s" using assms by (rule reachable_inv)
  have "distinct (placedPositions s)" "distinct (map dom_id (pool s) @ map pl_id (placed s))"
    using inv by (simp_all add: puzzle_inv_def placements_ok_def ids_ok_def)
  then show ?thesis
    using inv_board_positions[OF inv] inv_same_domino_adjacent[OF inv] by blast
qed

theorem reachable_state_invariant_witness:
  "reachable demo_placed \<and>
   placedPositions demo_placed = [(0, 0), (0, 1)] \<and>
   distinct (placedPositions demo_placed) \<and>
   board demo_placed 0 0 = Some (Occupant 4 4) \<and>
   board demo_placed 0 1 = Some (Occupant 1 4) \<and>
   areAdjacent (Click 0 0) (Click 0 1) \<and>
   distinct (map dom_id (pool demo_placed) @ map pl_id (placed demo_placed))"
proof -
  have "areAdjacent (Click 0 0) (Click 0 1)"
    using reachable_state_invariant[OF demo_placed_reachable] demo_placed_fields(7,8)
    by (metis Pair_inject occupant.sel(2) zero_neq_one)
  then show ?thesis
    using reachable_state_invariant[OF demo_placed_reachable] demo_placed_reachable
      demo_placed_fields
    by (simp add: placedPositions_def pos_def)
qed

lemma placement_follows_click_order_example:
  "selectedDominoId (onSelectDomino 1 demo_start) = Some 1 \<and>
   find (\<lambda>d. dom_id d = 1) (pool (onSelectDomino 1 demo_start)) = Some (Domino 1 1 4) \<and>
   areAdjacent (Click 1 2) (Click 1 1) \<and>
   (\<exists>s1 s2. onCellClick 1 2 (onSelectDomino 1 demo_start) = Inr s1 \<and>
            onCellClick 1 1 s1 = Inr s2 \<and>
            board s2 1 2 = Some (Occupant 1 1) \<and>
            board s2 1 1 = Some (Occupant 4 1) \<and>
            placed s2 = [Placement 1 [Cell 1 2 1, Cell 1 1 4]] \<and>
            history s2 = [Entry Place 1 [Cell 1 2 1, Cell 1 1 4]] \<and>
            Domino 1 1 4 \<notin> set (pool s2) \<and>
            selectedDominoId s2 = None \<and> selectionClicks s2 = [])"
proof -
  let ?s = "onSelectDomino 1 demo_start"
  have s: "?s = demo_start\<lparr>selectedDominoId := Some 1, selectionClicks := [],
                             message := NoticeSelected\<rparr>"
    by (simp add: onSelectDomino_def demo_start_def)
  have h1: "selectedDominoId ?s = Some 1" by (simp add: s)
  have h2: "(1::int) \<noteq> 0" by simp
  have h3: "selectionClicks ?s = []" by (simp add: s)
  have h4: "(1::nat) < SIZE" by (simp add: SIZE_def)
  have h5: "board ?s 1 2 = None" "board ?s 1 1 = None"
    unfolding s by (simp_all add: demo_start_def createEmptyBoard_def)
  have h6: "areAdjacent (Click 1 2) (Click 1 1)" by (simp add: areAdjacent_def)
  have h7: "find (\<lambda>d. dom_id d = 1) (pool ?s) = Some (Domino 1 1 4)"
    unfolding s by (simp add: demo_start_def)
  have p: "placed ?s = []" "history ?s = []" unfolding s by (simp_all add: demo_start_def)
  from placement_follows_click_order[OF h1 h2 h3 h4 h4 h5 h6 h7]
  obtain s1 s2 where
    "onCellClick 1 2 ?s = Inr s1" "onCellClick 1 1 s1 = Inr s2"
    "board s2 1 2 = Some (Occupant 1 1)" "board s2 1 1 = Some (Occupant 4 1)"
    "placed s2 = [Placement 1 [Cell 1 2 1, Cell 1 1 4]]"
    "history s2 = [Entry Place 1 [Cell 1 2 1, Cell 1 1 4]]"
    "Domino 1 1 4 \<notin> set (pool s2)"
    "selectedDominoId s2 = None" "selectionClicks s2 = []"
    unfolding p by auto
  then show ?thesis using h1 h6 h7 by blast
qed

theorem non_adjacent_clicks_rejected_witness:
  "selectionClicks demo_selected = [] \<and>
   board demo_selected 0 0 = None \<and> board demo_selected 0 2 = None \<and>
   \<not> areAdjacent (Click 0 0) (Click 0 2) \<and>
   \<not> js_falsy (selectedDominoId demo_selected) \<and>
   (\<exists>s1 s2. onCellClick 0 0 demo_selected = Inr s1 \<and> onCellClick 0 2 s1 = Inr s2 \<and>
            selectionClicks s1 = [Click 0 0] \<and> message s2 = NoticeNotAdjacent \<and>
            selectionClicks s2 = [] \<and> selectedDominoId s2 = Some 4 \<and>
            board s2 = board demo_selected \<and> pool s2 = pool demo_selected \<and>
            placed s2 = placed demo_selected \<and> history s2 = history demo_selected)"
proof -
  have h1: "selectionClicks demo_selected = []" by (simp add: demo_selected_def)
  have h2: "(0::nat) < SIZE" by (simp add: SIZE_def)
  have h3: "board demo_selected 0 0 = None" "board demo_selected 0 2 = None"
    by (simp_all add: demo_selected_def demo_start_def createEmptyBoard_def)
  have h4: "\<not> areAdjacent (Click 0 0) (Click 0 2)" by (simp add: areAdjacent_def)
  have h5: "\<not> js_falsy (selectedDominoId demo_selected)"
    by (simp add: demo_selected_def js_falsy_def)
  have h6: "selectedDominoId demo_selected = Some 4" by (simp add: demo_selected_def)
  from non_adjacent_clicks_rejected[OF h1 h2 h2 h3 h4] h5 h6
  have "\<exists>s1 s2. onCellClick 0 0 demo_selected = Inr s1 \<and> onCellClick 0 2 s1 = Inr s2 \<and>
            selectionClicks s1 = [Click 0 0] \<and> message s2 = NoticeNotAdjacent \<and>
            selectionClicks s2 = [] \<and> selectedDominoId s2 = Some 4 \<and>
            board s2 = board demo_selected \<and> pool s2 = pool demo_selected \<and>
            placed s2 = placed demo_selected \<and> history s2 = history demo_selected"
    by auto
  then show ?thesis using h1 h3 h4 h5 by blast
qed

text \<open>
  C6. The placement of the claim needs a domino selected and two empty adjacent
  cells clicked. With domino 0 selected these conditions are met and nothing is
  placed: the click handler tests the selection with \<open>!selectedDominoId\<close>, which is
  true of 0, so each of the two clicks only sets the notice to select a domino
  first. The board, the pool, the placements, the history and the selection stay
  as they were. For every other id \<open>placement_follows_click_order\<close> applies.
\<close>

theorem placement_of_domino_zero_rejected:
  assumes "selectedDominoId s = Some 0"
  shows "onCellClick r1 c1 s = Inr (s\<lparr>message := NoticeSelectFirst\<rparr>) \<and>
         onCellClick r2 c2 (s\<lparr>message := NoticeSelectFirst\<rparr>)
           = Inr (s\<lparr>message := NoticeSelectFirst\<rparr>)"
  using assms by (simp add: onCellClick_def js_falsy_def)

definition demo_zero :: puzzle where
  "demo_zero = demo_start\<lparr>selectedDominoId := Some 0, selectionClicks := [],
                          message := NoticeSelected\<rparr>"

lemma demo_select_zero: "onSelectDomino 0 demo_start = demo_zero"
  by (simp add: onSelectDomino_def demo_zero_def demo_start_def)

lemma demo_zero_reachable: "reachable demo_zero"
  using r_select[OF demo_reachable, of 0] by (simp add: demo_select_zero)

theorem placement_of_domino_zero_rejected_witness:
  "reachable demo_zero \<and>
   onSelectDomino 0 demo_start = demo_zero \<and>
   selectedDominoId demo_zero = Some 0 \<and>
   selectionClicks demo_zero = [] \<and>
   find (\<lambda>d. dom_id d = 0) (pool demo_zero) = Some (Domino 0 4 1) \<and>
   board demo_zero 1 1 = None \<and> board demo_zero 1 2 = None \<and>
   areAdjacent (Click 1 1) (Click 1 2) \<and>
   onCellClick 1 1 demo_zero = Inr (demo_zero\<lparr>message := NoticeSelectFirst\<rparr>) \<and>
   onCellClick 1 2 (demo_zero\<lparr>message := NoticeSelectFirst\<rparr>)
     = Inr (demo_zero\<lparr>message := NoticeSelectFirst\<rparr>) \<and>
   board (demo_zero\<lparr>message := NoticeSelectFirst\<rparr>) 1 1 = None \<and>
   board (demo_zero\<lparr>message := NoticeSelectFirst\<rparr>) 1 2 = None \<and>
   placed (demo_zero\<lparr>message := NoticeSelectFirst\<rparr>) = [] \<and>
   history (demo_zero\<lparr>message := NoticeSelectFirst\<rparr>) = [] \<and>
   pool (demo_zero\<lparr>message := NoticeSelectFirst\<rparr>) = pool demo_start"
proof -
  have h: "selectedDominoId demo_zero = Some 0" by (simp add: demo_zero_def)
  have f: "find (\<lambda>d. dom_id d = 0) (pool demo_zero) = Some (Domino 0 4 1)"
    by (simp add: demo_zero_def demo_start_def)
  have b: "board demo_zero 1 1 = None" "board demo_zero 1 2 = None"
    by (simp_all add: demo_zero_def demo_start_def createEmptyBoard_def)
  have a: "areAdjacent (Click 1 1) (Click 1 2)" by (simp add: areAdjacent_def)
  have r: "selectionClicks demo_zero = []" "placed demo_zero = []" "history demo_zero = []"
    "pool demo_zero = pool demo_start"
    by (simp_all add: demo_zero_def demo_start_def)
  show ?thesis
    using placement_of_domino_zero_rejected[OF h, of 1 1 1 2]
      demo_zero_reachable demo_select_zero h f b a r
    by simp
qed

text \<open>
  C10. In a reachable state an id that is neither in the pool nor among the
  placements is accepted by \<open>onSelectDomino\<close>. The first click on an empty cell is
  recorded; the second click, on an adjacent empty cell, looks the id up in the
  pool, finds nothing, reports it, clears the pending clicks and keeps the
  selection. Board, pool, placements and history are untouched, and both clicks
  return normally.
\<close>

theorem unknown_id_fails_at_second_click:
  assumes "reachable s"
    and "i \<notin> set (map dom_id (pool s))" "i \<notin> set (map pl_id (placed s))"
    and "r1 < SIZE" "r2 < SIZE"
    and "board s r1 c1 = None" "board s r2 c2 = None"
    and "areAdjacent (Click r1 c1) (Click r2 c2)"
  shows "selectedDominoId (onSelectDomino i s) = Some i \<and>
         selectionClicks (onSelectDomino i s) = [] \<and>
         (\<exists>s1 s2. onCellClick r1 c1 (onSelectDomino i s) = Inr s1 \<and>
                  selectionClicks s1 = [Click r1 c1] \<and> message s1 = NoticeSecondCell \<and>
                  onCellClick r2 c2 s1 = Inr s2 \<and>
                  message s2 = NoticeNotFound \<and> selectionClicks s2 = [] \<and>
                  selectedDominoId s2 = Some i \<and>
                  board s2 = board s \<and> pool s2 = pool s \<and> placed s2 = placed s \<and>
                  history s2 = history s)"
proof -
  have inv: "puzzle_inv s" using assms(1) by (rule reachable_inv)
  then have "set (map dom_id (pool s)) \<union> set (map pl_id (placed s)) = {0..<8}"
    by (simp add: puzzle_inv_def ids_ok_def)
  then have "i \<notin> {0..<8}" using assms(2,3) by blast
  then have i0: "i \<noteq> 0" by auto
  have np: "find (\<lambda>p. pl_id p = i) (placed s) = None"
    using assms(3) by (auto simp: find_None_iff)
  let ?s0 = "onSelectDomino i s"
  have s0: "?s0 = s\<lparr>selectedDominoId := Some i, selectionClicks := [], message := NoticeSelected\<rparr>"
    using np by (simp add: onSelectDomino_def)
  have t: "\<not> js_falsy (selectedDominoId ?s0)" using i0 by (simp add: s0 js_falsy_def)
  let ?s1 = "?s0\<lparr>selectionClicks := [Click r1 c1], message := NoticeSecondCell\<rparr>"
  let ?s2 = "?s1\<lparr>message := NoticeNotFound, selectionClicks := []\<rparr>"
  have 1: "onCellClick r1 c1 ?s0 = Inr ?s1"
    by (rule first_click[OF t]) (use assms in \<open>simp_all add: s0\<close>)
  have nf: "find (\<lambda>d. Some (dom_id d) = selectedDominoId ?s1) (pool ?s1) = None"
    using assms(2) by (auto simp: s0 find_None_iff)
  have 2: "onCellClick r2 c2 ?s1 = Inr ?s2"
    by (rule second_click_not_found[OF _ _ _ _ _ nf]) (use assms i0 in \<open>simp_all add: s0 js_falsy_def\<close>)
  have "selectedDominoId ?s0 = Some i \<and> selectionClicks ?s0 = []" by (simp add: s0)
  moreover have "selectionClicks ?s1 = [Click r1 c1] \<and> message ?s1 = NoticeSecondCell \<and>
      message ?s2 = NoticeNotFound \<and> selectionClicks ?s2 = [] \<and> selectedDominoId ?s2 = Some i \<and>
      board ?s2 = board s \<and> pool ?s2 = pool s \<and> placed ?s2 = placed s \<and> history ?s2 = history s"
    by (simp add: s0)
  ultimately show ?thesis using 1 2 by blast
qed

theorem unknown_id_fails_at_second_click_witness:
  "reachable demo_start \<and>
   (-1) \<notin> set (map dom_id (pool demo_start)) \<and> (-1) \<notin> set (map pl_id (placed demo_start)) \<and>
   areAdjacent (Click 0 0) (Click 1 0) \<and>
   selectedDominoId (onSelectDomino (-1) demo_start) = Some (-1) \<and>
   (\<exists>s1 s2. onCellClick 0 0 (onSelectDomino (-1) demo_start) = Inr s1 \<and>
            onCellClick 1 0 s1 = Inr s2 \<and>
            message s2 = NoticeNotFound \<and> selectionClicks s2 = [] \<and>
            selectedDominoId s2 = Some (-1) \<and>
            board s2 = board demo_start \<and> pool s2 = pool demo_start \<and>
            placed s2 = placed demo_start \<and> history s2 = history demo_start)"
proof -
  have h2: "(-1) \<notin> set (map dom_id (pool demo_start))" "(-1) \<notin> set (map pl_id (placed demo_start))"
    by (simp_all add: demo_start_def)
  have h3: "(0::nat) < SIZE" "(1::nat) < SIZE" by (simp_all add: SIZE_def)
  have h4: "board demo_start 0 0 = None" "board demo_start 1 0 = None"
    by (simp_all add: demo_start_def createEmptyBoard_def)
  have h5: "areAdjacent (Click 0 0) (Click 1 0)" by (simp add: areAdjacent_def)
  from unknown_id_fails_at_second_click[OF demo_reachable h2 h3 h4 h5]
  show ?thesis using demo_reachable h2 h5 by blast
qed

section \<open>Undo after a placement\<close>

lemma filter_unique:
  "distinct (map f xs) \<Longrightarrow> d \<in> set xs \<Longrightarrow> filter (\<lambda>x. f x = f d) xs = [d]"
proof (induction xs)
  case Nil
  then show ?case by simp
next
  case (Cons x xs)
  show ?case
  proof (cases "x = d")
    case True
    have "f d \<notin> f ` set xs" using Cons.prems(1) True by simp
    then have "\<forall>y \<in> set xs. f y \<noteq> f d" by (metis imageI)
    then have "filter (\<lambda>x. f x = f d) xs = []" by (simp add: filter_empty_conv)
    then show ?thesis using True by simp
  next
    case False
    then have m: "d \<in> set xs" using Cons.prems(2) by simp
    have "f x \<notin> f ` set xs" using Cons.prems(1) by simp
    then have "f x \<noteq> f d" using m by (metis imageI)
    then show ?thesis using Cons.IH Cons.prems(1) m by simp
  qed
qed

lemma pool_back:
  assumes "distinct (map dom_id ps)" "d \<in> set ps"
  shows "mset (filter (\<lambda>x. dom_id x \<noteq> dom_id d) ps @ [d]) = mset ps"
proof -
  have "mset ps = mset (filter (\<lambda>x. dom_id x = dom_id d) ps)
                + mset (filter (\<lambda>x. dom_id x \<noteq> dom_id d) ps)"
    by (induction ps) simp_all
  then show ?thesis using filter_unique[OF assms] by simp
qed

lemma clear_after_place:
  assumes "g r1 c1 = None" "g r2 c2 = None"
  shows "put (put (put (put g r1 c1 x) r2 c2 y) r1 c1 None) r2 c2 None = g"
  using assms by (auto simp: put_apply fun_eq_iff)

lemma place_then_undo:
  assumes reach: "reachable s"
    and sel: "selectedDominoId s = Some i" "i \<noteq> 0" and nc: "selectionClicks s = []"
    and r: "r1 < SIZE" "r2 < SIZE"
    and e: "board s r1 c1 = None" "board s r2 c2 = None"
    and adj: "areAdjacent (Click r1 c1) (Click r2 c2)"
    and f: "find (\<lambda>d. dom_id d = i) (pool s) = Some d"
  shows "\<exists>s1 s2 s3. onCellClick r1 c1 s = Inr s1 \<and> onCellClick r2 c2 s1 = Inr s2 \<and>
           undo s2 = Inr s3 \<and>
           placed s2 = placed s @ [Placement i [Cell r1 c1 (dom_a d), Cell r2 c2 (dom_b d)]] \<and>
           board s3 = board s \<and> placed s3 = placed s \<and> history s3 = history s \<and>
           solutionTiles s3 = solutionTiles s \<and>
           pool s3 = filter (\<lambda>x. dom_id x \<noteq> i) (pool s) @ [d] \<and>
           mset (pool s3) = mset (pool s) \<and>
           d = domino_of (solutionTiles s) i \<and>
           selectedDominoId s3 = None \<and> selectionClicks s3 = []"
proof -
  let ?s1 = "s\<lparr>selectionClicks := [Click r1 c1], message := NoticeSecondCell\<rparr>"
  let ?p = "placeOn ?s1 (Click r1 c1) (Click r2 c2) d"
  let ?P = "Placement i [Cell r1 c1 (dom_a d), Cell r2 c2 (dom_b d)]"
  have inv: "puzzle_inv s" using reach by (rule reachable_inv)
  have t: "\<not> js_falsy (selectedDominoId s)" using sel by (simp add: js_falsy_def)
  have id: "dom_id d = i" and din: "d \<in> set (pool s)" using f by (auto simp: find_Some_iff)
  have 1: "onCellClick r1 c1 s = Inr ?s1" using first_click[OF t nc r(1) e(1)] .
  have f': "find (\<lambda>d. Some (dom_id d) = selectedDominoId ?s1) (pool ?s1) = Some d"
    using sel(1) f by simp
  have 2: "onCellClick r2 c2 ?s1 = Inr (checkCompletion ?p)"
    by (rule second_click_places) (use t r e adj f' in simp_all)
  obtain m where cc: "checkCompletion ?p = ?p\<lparr>message := m\<rparr>"
    using checkCompletion_message by blast
  let ?s2 = "?p\<lparr>message := m\<rparr>"
  have inv2: "puzzle_inv ?s2"
    using click_inv[OF click_inv[OF inv 1] 2] cc by simp
  have pl2: "placed ?s2 = placed s @ [?P]" using id by (simp add: placeOn_def)
  have h2: "history ?s2 \<noteq> []" by (simp add: placeOn_def)
  have 3: "undo ?s2 = Inr (undone ?s2)" using undo_unfold[OF inv2 h2] .
  have dpool: "d = domino_of (solutionTiles s) i"
    using inv din id by (auto simp: puzzle_inv_def pool_ok_def)
  have b3: "board (undone ?s2) = board s"
    using clear_after_place[of "board s" r1 c1 r2 c2, OF e] by (simp add: undone_def Let_def pl2) (simp add: placeOn_def)
  have p3: "pool (undone ?s2) = filter (\<lambda>x. dom_id x \<noteq> i) (pool s) @ [d]"
    using dpool id by (simp add: undone_def Let_def pl2) (simp add: placeOn_def)
  have dd: "distinct (map dom_id (pool s))" using inv by (simp add: puzzle_inv_def ids_ok_def)
  have m3: "mset (pool (undone ?s2)) = mset (pool s)"
    unfolding p3 using pool_back[OF dd din] id by simp
  have r3: "placed (undone ?s2) = placed s" "history (undone ?s2) = history s"
      "solutionTiles (undone ?s2) = solutionTiles s"
      "selectedDominoId (undone ?s2) = None" "selectionClicks (undone ?s2) = []"
    by (simp_all add: undone_def Let_def pl2) (simp_all add: placeOn_def)
  show ?thesis
    using 1 2 3 pl2 b3 p3 m3 dpool r3 unfolding cc by blast
qed

text \<open>
  C4, as claimed, fails: \<open>undo\<close> pushes the domino to the end of the pool, does not
  bring back the selection and leaves its own message. From the fresh puzzle
  \<open>demo_start\<close>: select domino 4, click (0,0) and (0,1), undo. The result differs
  from the state before the selection (the pool is in another order), from the
  state after it and from the state before the second click (no selection).
\<close>

theorem undo_is_not_identity_counterexample:
  "onSelectDomino 4 demo_start = demo_selected \<and>
   onCellClick 0 0 demo_selected = Inr demo_one \<and>
   onCellClick 0 1 demo_one = Inr demo_placed \<and>
   placed demo_placed = [Placement 4 [Cell 0 0 4, Cell 0 1 1]] \<and>
   undo demo_placed = Inr demo_undone \<and>
   pool demo_start = [Domino 4 4 1, Domino 6 4 1, Domino 1 1 4, Domino 5 1 4,
                      Domino 2 4 1, Domino 7 1 4, Domino 3 1 4, Domino 0 4 1] \<and>
   pool demo_undone = [Domino 6 4 1, Domino 1 1 4, Domino 5 1 4, Domino 2 4 1,
                       Domino 7 1 4, Domino 3 1 4, Domino 0 4 1, Domino 4 4 1] \<and>
   selectedDominoId demo_selected = Some 4 \<and>
   selectedDominoId demo_one = Some 4 \<and>
   selectedDominoId demo_undone = None \<and>
   demo_undone \<noteq> demo_start \<and> demo_undone \<noteq> demo_selected \<and> demo_undone \<noteq> demo_one"
proof -
  have p0: "pool demo_start = [Domino 4 4 1, Domino 6 4 1, Domino 1 1 4, Domino 5 1 4,
                      Domino 2 4 1, Domino 7 1 4, Domino 3 1 4, Domino 0 4 1]"
    by (simp add: demo_start_def)
  have s1: "selectedDominoId demo_selected = Some 4" "selectedDominoId demo_one = Some 4"
    by (simp_all add: demo_one_def demo_selected_def)
  have "pool demo_undone \<noteq> pool demo_start"
    unfolding p0 demo_undone_fields(3) by simp
  then have n0: "demo_undone \<noteq> demo_start" by auto
  have "selectedDominoId demo_undone \<noteq> selectedDominoId demo_selected"
       "selectedDominoId demo_undone \<noteq> selectedDominoId demo_one"
    unfolding s1 demo_undone_fields(4) by simp_all
  then have n1: "demo_undone \<noteq> demo_selected" "demo_undone \<noteq> demo_one" by auto
  show ?thesis
    using demo_select demo_click1 demo_click2 demo_placed_fields(1) demo_undo p0
      demo_undone_fields(3,4) s1 n0 n1
    by simp
qed

text \<open>
  C4, amended. In a reachable state with a domino selected that the click handler
  accepts and no pending click, place the domino by two clicks and undo once. The
  board, the placements, the history and the solution are those of the state before the
  clicks; the pool holds the same dominoes, with the placed one moved to its end and
  its values equal to those of the solution tile of its id; the placement had added
  one entry to \<open>placed\<close>, which the undo removes; no domino is selected afterwards.
\<close>

theorem undo_restores_up_to_pool_order:
  assumes "reachable s"
    and "selectedDominoId s = Some i" "i \<noteq> 0" "selectionClicks s = []"
    and "r1 < SIZE" "r2 < SIZE"
    and "board s r1 c1 = None" "board s r2 c2 = None"
    and "areAdjacent (Click r1 c1) (Click r2 c2)"
    and "find (\<lambda>d. dom_id d = i) (pool s) = Some d"
  shows "\<exists>s1 s2 s3. onCellClick r1 c1 s = Inr s1 \<and> onCellClick r2 c2 s1 = Inr s2 \<and>
           undo s2 = Inr s3 \<and>
           length (placed s2) = length (placed s) + 1 \<and>
           length (placed s3) = length (placed s2) - 1 \<and>
           board s3 = board s \<and> placed s3 = placed s \<and> history s3 = history s \<and>
           solutionTiles s3 = solutionTiles s \<and>
           pool s3 = filter (\<lambda>x. dom_id x \<noteq> i) (pool s) @ [d] \<and>
           mset (pool s3) = mset (pool s) \<and>
           d = domino_of (solutionTiles s) i \<and>
           selectedDominoId s3 = None \<and> selectionClicks s3 = []"
proof -
  from place_then_undo[OF assms] obtain s1 s2 s3 where
    a: "onCellClick r1 c1 s = Inr s1" "onCellClick r2 c2 s1 = Inr s2" "undo s2 = Inr s3"
       "placed s2 = placed s @ [Placement i [Cell r1 c1 (dom_a d), Cell r2 c2 (dom_b d)]]"
       "board s3 = board s" "placed s3 = placed s" "history s3 = history s"
       "solutionTiles s3 = solutionTiles s"
       "pool s3 = filter (\<lambda>x. dom_id x \<noteq> i) (pool s) @ [d]"
       "mset (pool s3) = mset (pool s)" "d = domino_of (solutionTiles s) i"
       "selectedDominoId s3 = None" "selectionClicks s3 = []"
    by blast
  have "length (placed s2) = length (placed s) + 1" "length (placed s3) = length (placed s2) - 1"
    using a(4,6) by simp_all
  then show ?thesis using a by blast
qed

theorem undo_restores_up_to_pool_order_witness:
  "reachable demo_selected \<and> selectedDominoId demo_selected = Some 4 \<and>
   find (\<lambda>d. dom_id d = 4) (pool demo_selected) = Some (Domino 4 4 1) \<and>
   onCellClick 0 0 demo_selected = Inr demo_one \<and>
   onCellClick 0 1 demo_one = Inr demo_placed \<and>
   undo demo_placed = Inr demo_undone \<and>
   board demo_undone = board demo_selected \<and>
   placed demo_undone = placed demo_selected \<and>
   history demo_undone = history demo_selected \<and>
   mset (pool demo_undone) = mset (pool demo_selected) \<and>
   Domino 4 4 1 = domino_of (solutionTiles demo_selected) 4"
proof -
  have h1: "selectedDominoId demo_selected = Some 4" "(4::int) \<noteq> 0"
    "selectionClicks demo_selected = []"
    by (simp_all add: demo_selected_def)
  have h2: "(0::nat) < SIZE" by (simp add: SIZE_def)
  have h3: "board demo_selected 0 0 = None" "board demo_selected 0 1 = None"
    by (simp_all add: demo_selected_def demo_start_def createEmptyBoard_def)
  have h4: "areAdjacent (Click 0 0) (Click 0 1)" by (simp add: areAdjacent_def)
  have h5: "find (\<lambda>d. dom_id d = 4) (pool demo_selected) = Some (Domino 4 4 1)"
    by (simp add: demo_selected_def demo_start_def)
  from undo_restores_up_to_pool_order[OF demo_selected_reachable h1 h2 h2 h3 h4 h5]
  obtain s1 s2 s3 where
    a: "onCellClick 0 0 demo_selected = Inr s1" "onCellClick 0 1 s1 = Inr s2" "undo s2 = Inr s3"
       "board s3 = board demo_selected" "placed s3 = placed demo_selected"
       "history s3 = history demo_selected" "mset (pool s3) = mset (pool demo_selected)"
       "Domino 4 4 1 = domino_of (solutionTiles demo_selected) 4"
    by blast
  have "s1 = demo_one" using a(1) demo_click1 by simp
  then have "s2 = demo_placed" using a(2) demo_click2 by simp
  then have "s3 = demo_undone" using a(3) demo_undo by simp
  then show ?thesis
    using a \<open>s1 = demo_one\<close> \<open>s2 = demo_placed\<close> demo_selected_reachable h1(1) h5 by simp
qed

end
